theory Spec2Isabelle
  imports Main
begin

section \<open>Memory reads and failures\<close>

text \<open>
  The C program never reports an error: where it reads outside an object, reads a cell
  that was allocated but never written, dereferences a null pointer or leaves a result
  variable unset, the model returns the matching \<open>pbg_error\<close> instead of a value.
\<close>

datatype pbg_error =
    OutOfBounds
  | NullDeref
  | Uninitialised
  | InvalidLiteral
  | BufferOverflow
  | NotModelled

definition rbind :: "pbg_error + 'a \<Rightarrow> ('a \<Rightarrow> pbg_error + 'b) \<Rightarrow> pbg_error + 'b" where
  "rbind m f = (case m of Inl e \<Rightarrow> Inl e | Inr x \<Rightarrow> f x)"

text \<open>
  A \<open>char*\<close> is modelled by the bytes from the pointer to the end of the object it points
  into; \<open>rd s i\<close> is the read \<open>s[i]\<close>.
\<close>

definition rd :: "char list \<Rightarrow> int \<Rightarrow> pbg_error + char" where
  "rd s i = (if 0 \<le> i \<and> i < int (length s) then Inr (s ! nat i) else Inl OutOfBounds)"

section \<open>Lexical recognizers\<close>

definition is_a_digit :: "char \<Rightarrow> bool" where
  "is_a_digit c = ((48::nat) \<le> of_char c \<and> of_char c \<le> (57::nat))"

text \<open>The loop \<open>while(i != n && is_a_digit(str[i])) i++;\<close> of \<open>pbg_isnumber\<close>.\<close>

function skip_digits :: "char list \<Rightarrow> int \<Rightarrow> int \<Rightarrow> pbg_error + int" where
  "skip_digits s n i =
     (if i = n then Inr i
      else if \<not> (0 \<le> i \<and> i < int (length s)) then Inl OutOfBounds
      else if is_a_digit (s ! nat i) then skip_digits s n (i + 1)
      else Inr i)"
  by pat_completeness auto
termination
  by (relation "measure (\<lambda>(s, n, i). nat (int (length s) - i))") auto

declare skip_digits.simps [simp del]

text \<open>
  \<open>pbg_isnumber\<close>, in four stages as in the source: the sign, the part before the dot,
  the part after the dot, the exponent. Each stage returns either the verdict
  (\<open>Inl\<close> of the returned \<open>int\<close> as a truth value) or the cursor \<open>i\<close> it hands on.
\<close>

definition isnumber_sign :: "char list \<Rightarrow> pbg_error + (bool + int)" where
  "isnumber_sign s =
     rbind (rd s 0) (\<lambda>c.
       if c = CHR ''-'' \<or> c = CHR ''+'' then Inr (Inr 1)
       else if \<not> is_a_digit c then Inr (Inl False)
       else Inr (Inr 0))"

definition isnumber_int :: "char list \<Rightarrow> int \<Rightarrow> int \<Rightarrow> pbg_error + (bool + int)" where
  "isnumber_int s n i =
     rbind (rd s i) (\<lambda>c.
       if c \<noteq> CHR ''0'' \<and> is_a_digit c then
         rbind (skip_digits s n i) (\<lambda>j.
           if j \<noteq> n then
             rbind (rd s j) (\<lambda>d.
               if \<not> is_a_digit d \<and> d \<noteq> CHR ''.'' then Inr (Inl False) else Inr (Inr j))
           else Inr (Inr j))
       else if c = CHR ''0'' then
         (if i + 1 \<noteq> n then
            rbind (rd s (i + 1)) (\<lambda>d.
              if \<not> (d = CHR ''.'' \<or> d = CHR ''e'' \<or> d = CHR ''E'') then Inr (Inl False)
              else Inr (Inr (i + 1)))
          else Inr (Inr (i + 1)))
       else Inr (Inr i))"

definition isnumber_frac :: "char list \<Rightarrow> int \<Rightarrow> int \<Rightarrow> pbg_error + (bool + int)" where
  "isnumber_frac s n i =
     rbind (rd s i) (\<lambda>c.
       if c = CHR ''.'' then
         (if i = n - 1 then Inr (Inl False)
          else
            rbind (skip_digits s n (i + 1)) (\<lambda>j.
              if j \<noteq> n then
                rbind (rd s j) (\<lambda>d.
                  if \<not> is_a_digit d \<and> d \<noteq> CHR ''e'' \<and> d \<noteq> CHR ''E'' then Inr (Inl False)
                  else Inr (Inr j))
              else Inr (Inr j)))
       else Inr (Inr i))"

definition isnumber_exp :: "char list \<Rightarrow> int \<Rightarrow> int \<Rightarrow> pbg_error + bool" where
  "isnumber_exp s n i =
     rbind (rd s i) (\<lambda>c.
       if c = CHR ''e'' \<or> c = CHR ''E'' then
         (if i = n - 1 then Inr False
          else
            rbind (rd s (i + 1)) (\<lambda>g.
              rbind (skip_digits s n (if g = CHR ''-'' \<or> g = CHR ''+'' then i + 2 else i + 1)) (\<lambda>j.
                if j \<noteq> n then
                  rbind (rd s j) (\<lambda>d. if \<not> is_a_digit d then Inr False else Inr True)
                else Inr True)))
       else Inr True)"

definition stage :: "pbg_error + (bool + int) \<Rightarrow> (int \<Rightarrow> pbg_error + (bool + int))
    \<Rightarrow> pbg_error + (bool + int)" where
  "stage m f = rbind m (\<lambda>v. case v of Inl b \<Rightarrow> Inr (Inl b) | Inr i \<Rightarrow> f i)"

definition pbg_isnumber :: "char list \<Rightarrow> int \<Rightarrow> pbg_error + bool" where
  "pbg_isnumber s n =
     rbind (stage (stage (isnumber_sign s) (isnumber_int s n)) (isnumber_frac s n)) (\<lambda>v.
       case v of Inl b \<Rightarrow> Inr b | Inr i \<Rightarrow> isnumber_exp s n i)"

definition pbg_iskey :: "char list \<Rightarrow> int \<Rightarrow> pbg_error + bool" where
  "pbg_iskey s n =
     rbind (rd s 0) (\<lambda>c.
       if c \<noteq> CHR ''['' then Inr False
       else rbind (rd s (n - 1)) (\<lambda>d. Inr (d = CHR '']'')))"

definition pbg_isstring :: "char list \<Rightarrow> int \<Rightarrow> pbg_error + bool" where
  "pbg_isstring s n =
     rbind (rd s 0) (\<lambda>c.
       if c \<noteq> CHR 0x27 then Inr False
       else rbind (rd s (n - 1)) (\<lambda>d. Inr (d = CHR 0x27)))"

text \<open>
  \<open>pbg_istrue\<close>, \<open>pbg_isfalse\<close> and \<open>pbg_isdate\<close> test the length and then the bytes
  \<open>str[0]\<close>, \<open>str[1]\<close>, ... one after the other, stopping at the first that fails.
\<close>

fun all_at :: "(char \<Rightarrow> bool) list \<Rightarrow> char list \<Rightarrow> int \<Rightarrow> pbg_error + bool" where
  "all_at [] s i = Inr True"
| "all_at (p # ps) s i = rbind (rd s i) (\<lambda>c. if p c then all_at ps s (i + 1) else Inr False)"

definition pbg_istrue :: "char list \<Rightarrow> int \<Rightarrow> pbg_error + bool" where
  "pbg_istrue s n = (if n \<noteq> 4 then Inr False else all_at (map (\<lambda>x c. c = x) ''TRUE'') s 0)"

definition pbg_isfalse :: "char list \<Rightarrow> int \<Rightarrow> pbg_error + bool" where
  "pbg_isfalse s n = (if n \<noteq> 5 then Inr False else all_at (map (\<lambda>x c. c = x) ''FALSE'') s 0)"

definition pbg_isdate :: "char list \<Rightarrow> int \<Rightarrow> pbg_error + bool" where
  "pbg_isdate s n =
     (if n \<noteq> 10 then Inr False
      else all_at [is_a_digit, is_a_digit, is_a_digit, is_a_digit, (\<lambda>c. c = CHR ''-''),
                   is_a_digit, is_a_digit, (\<lambda>c. c = CHR ''-''), is_a_digit, is_a_digit] s 0)"

section \<open>Data model\<close>

text \<open>
  Modelled from the spec: the header \<open>pbg.h\<close>, which declares the enum \<open>pbg_node_type\<close>
  (with its markers \<open>PBG_MAX_LT\<close> and \<open>PBG_MAX_OP\<close>) and the structs \<open>pbg_expr_node\<close>,
  \<open>pbg_expr\<close> and \<open>pbg_type_date\<close>, is not among the sources. The node kinds are the two
  families of the data model: the literal kinds, which are the kinds below \<open>PBG_MAX_LT\<close>
  (the sentinel \<open>PBG_UNKNOWN\<close> among them), and the operator kinds, which are the kinds
  from \<open>PBG_MAX_LT\<close> up to \<open>PBG_MAX_OP\<close>. The fields of the structs are the ones
  \<open>pbg.c\<close> uses.
\<close>

datatype pbg_node_type =
    PBG_UNKNOWN
  | PBG_LT_TRUE | PBG_LT_FALSE | PBG_LT_NUMBER | PBG_LT_STRING | PBG_LT_DATE | PBG_LT_KEY
  | PBG_OP_NOT | PBG_OP_AND | PBG_OP_OR | PBG_OP_EQ | PBG_OP_LT | PBG_OP_GT | PBG_OP_EXST
  | PBG_OP_NEQ | PBG_OP_LTE | PBG_OP_GTE

text \<open>The test \<open>node->_type < PBG_MAX_LT\<close>.\<close>

definition is_lt :: "pbg_node_type \<Rightarrow> bool" where
  "is_lt t = (t \<in> {PBG_UNKNOWN, PBG_LT_TRUE, PBG_LT_FALSE, PBG_LT_NUMBER, PBG_LT_STRING,
                    PBG_LT_DATE, PBG_LT_KEY})"

text \<open>
  What \<open>_data\<close> points to: nothing (\<open>NULL\<close>), bytes (the text of a STRING or KEY, the
  eight bytes of a NUMBER's \<open>double\<close>), an \<open>int\<close> array (an operator's child references)
  or a \<open>pbg_type_date\<close> (year, month, day).
\<close>

datatype pbg_data =
    DNull
  | DBytes "char list"
  | DInts "int list"
  | DDate int int int

record pbg_expr_node =
  node_type :: pbg_node_type
  node_int :: int
  node_data :: pbg_data

text \<open>
  An arena is a \<open>malloc\<close>'d array of nodes: a list of slots, \<open>None\<close> for a slot that was
  never written.
\<close>

record pbg_expr =
  e_static :: "pbg_expr_node option list"
  e_dynamic :: "pbg_expr_node option list"
  e_staticsz :: int
  e_dynamicsz :: int

text \<open>
  What the program leaves to the C implementation: the object representation of an
  \<open>int\<close> array and of a \<open>pbg_type_date\<close> (read bytewise by EQ and NEQ), and the
  comparisons \<open><\<close> and \<open><=\<close> of two \<open>double\<close>s given by their eight bytes each.
\<close>

record abi =
  ints_repr :: "int list \<Rightarrow> char list"
  date_repr :: "int \<Rightarrow> int \<Rightarrow> int \<Rightarrow> char list"
  dbl_less :: "char list \<Rightarrow> char list \<Rightarrow> bool"
  dbl_le :: "char list \<Rightarrow> char list \<Rightarrow> bool"

definition slot :: "pbg_expr_node option list \<Rightarrow> int \<Rightarrow> pbg_error + pbg_expr_node" where
  "slot a i =
     (if 0 \<le> i \<and> i < int (length a)
      then (case a ! nat i of None \<Rightarrow> Inl Uninitialised | Some nd \<Rightarrow> Inr nd)
      else Inl OutOfBounds)"

text \<open>\<open>get_expr_node\<close>, together with the dereference of the pointer it returns.\<close>

definition get_expr_node :: "pbg_expr \<Rightarrow> int \<Rightarrow> pbg_error + pbg_expr_node" where
  "get_expr_node e index =
     (if index < 0 then slot (e_dynamic e) (- (index + 1)) else slot (e_static e) index)"

text \<open>The read \<open>children[i]\<close> of an operator's child list.\<close>

definition child_ref :: "pbg_data \<Rightarrow> int \<Rightarrow> pbg_error + int" where
  "child_ref d i =
     (case d of
        DNull \<Rightarrow> Inl NullDeref
      | DInts cs \<Rightarrow> (if 0 \<le> i \<and> i < int (length cs) then Inr (cs ! nat i) else Inl OutOfBounds)
      | DBytes bs \<Rightarrow> Inl NotModelled
      | DDate y m d \<Rightarrow> Inl NotModelled)"

text \<open>The bytes \<open>_data\<close> points to, and the reads \<open>((char*)_data)[j]\<close> and \<open>*((double*)_data)\<close>.\<close>

definition data_bytes :: "abi \<Rightarrow> pbg_data \<Rightarrow> pbg_error + char list" where
  "data_bytes ab d =
     (case d of
        DNull \<Rightarrow> Inl NullDeref
      | DBytes bs \<Rightarrow> Inr bs
      | DInts cs \<Rightarrow> Inr (ints_repr ab cs)
      | DDate y m dd \<Rightarrow> Inr (date_repr ab y m dd))"

definition data_byte :: "abi \<Rightarrow> pbg_data \<Rightarrow> int \<Rightarrow> pbg_error + char" where
  "data_byte ab d j = rbind (data_bytes ab d) (\<lambda>bs. rd bs j)"

definition data_double :: "abi \<Rightarrow> pbg_data \<Rightarrow> pbg_error + char list" where
  "data_double ab d =
     rbind (data_bytes ab d) (\<lambda>bs. if 8 \<le> length bs then Inr (take 8 bs) else Inl OutOfBounds)"

section \<open>Evaluator\<close>

text \<open>
  The evaluator is instrumented with the events a test can count: a call of the
  dictionary callback (with the arguments it receives) and a visit of the recursive
  walker (with the reference of the node it is called on). A walk carries the events so
  far and its outcome: \<open>None\<close> when the recursion was cut off, an error, or the value.
\<close>

datatype event = Lookup pbg_data int | Visit int

type_synonym 'a walk = "event list \<times> (pbg_error + 'a) option"

definition wret :: "'a \<Rightarrow> 'a walk" where
  "wret x = ([], Some (Inr x))"

definition wlift :: "pbg_error + 'a \<Rightarrow> 'a walk" where
  "wlift r = ([], Some r)"

definition wbind :: "'a walk \<Rightarrow> ('a \<Rightarrow> 'b walk) \<Rightarrow> 'b walk" where
  "wbind m f =
     (case m of
        (t, None) \<Rightarrow> (t, None)
      | (t, Some (Inl e)) \<Rightarrow> (t, Some (Inl e))
      | (t, Some (Inr x)) \<Rightarrow> (case f x of (t', r) \<Rightarrow> (t @ t', r)))"

text \<open>
  The AND loop and the OR loop of \<open>pbg_evaluate_r\<close>; \<open>ev\<close> is the recursive call on a
  child reference.
\<close>

function and_loop :: "(int \<Rightarrow> bool walk) \<Rightarrow> pbg_data \<Rightarrow> int \<Rightarrow> int \<Rightarrow> bool walk" where
  "and_loop ev d sz i =
     (if \<not> i < sz then wret True
      else wbind (wlift (child_ref d i)) (\<lambda>c.
             wbind (ev c) (\<lambda>b. if \<not> b then wret False else and_loop ev d sz (i + 1))))"
  by pat_completeness auto
termination
  by (relation "measure (\<lambda>(ev, d, sz, i). nat (sz - i))") auto

declare and_loop.simps [simp del]

function or_loop :: "(int \<Rightarrow> bool walk) \<Rightarrow> pbg_data \<Rightarrow> int \<Rightarrow> int \<Rightarrow> bool walk" where
  "or_loop ev d sz i =
     (if \<not> i < sz then wret False
      else wbind (wlift (child_ref d i)) (\<lambda>c.
             wbind (ev c) (\<lambda>b. if b then wret True else or_loop ev d sz (i + 1))))"
  by pat_completeness auto
termination
  by (relation "measure (\<lambda>(ev, d, sz, i). nat (sz - i))") auto

declare or_loop.simps [simp del]

text \<open>
  The inner loop of EQ over the bytes \<open>j < child0->_int\<close>: whether some byte differs.
\<close>

function bytes_differ :: "abi \<Rightarrow> pbg_data \<Rightarrow> pbg_data \<Rightarrow> int \<Rightarrow> int \<Rightarrow> pbg_error + bool" where
  "bytes_differ ab d0 di n j =
     (if \<not> j < n then Inr False
      else rbind (data_byte ab d0 j) (\<lambda>a.
             rbind (data_byte ab di j) (\<lambda>b.
               if a \<noteq> b then Inr True else bytes_differ ab d0 di n (j + 1))))"
  by pat_completeness auto
termination
  by (relation "measure (\<lambda>(ab, d0, di, n, j). nat (n - j))") auto

declare bytes_differ.simps [simp del]

text \<open>The outer loop of EQ over the children \<open>1 \<le> i < sz\<close>; \<open>c0\<close> is \<open>children[0]\<close>.\<close>

function eq_loop :: "abi \<Rightarrow> pbg_expr \<Rightarrow> pbg_data \<Rightarrow> int \<Rightarrow> int \<Rightarrow> int \<Rightarrow> pbg_error + bool" where
  "eq_loop ab e d sz c0 i =
     (if \<not> i < sz then Inr True
      else rbind (child_ref d i) (\<lambda>ci.
             rbind (get_expr_node e ci) (\<lambda>childi.
               rbind (get_expr_node e c0) (\<lambda>child0.
                 if node_int childi \<noteq> node_int child0 \<or> node_type childi \<noteq> node_type child0
                 then Inr False
                 else rbind (bytes_differ ab (node_data child0) (node_data childi) (node_int child0) 0)
                        (\<lambda>df. if df then Inr False else eq_loop ab e d sz c0 (i + 1))))))"
  by pat_completeness auto
termination
  by (relation "measure (\<lambda>(ab, e, d, sz, c0, i). nat (sz - i))") auto

declare eq_loop.simps [simp del]

text \<open>
  \<open>strncmp(s1, s2, n) != 0\<close>: the bytes are compared up to a difference, a NUL byte or
  \<open>n\<close> bytes, whichever comes first. The count is a \<open>size_t\<close>, so a negative \<open>_int\<close>
  arrives as a huge one.
\<close>

function strncmp_differ :: "abi \<Rightarrow> pbg_data \<Rightarrow> pbg_data \<Rightarrow> int \<Rightarrow> int \<Rightarrow> pbg_error + bool" where
  "strncmp_differ ab s1 s2 n j =
     (if \<not> j < n then Inr False
      else rbind (data_byte ab s1 j) (\<lambda>a.
             rbind (data_byte ab s2 j) (\<lambda>b.
               if a \<noteq> b then Inr True
               else if a = CHR 0x00 then Inr False
               else strncmp_differ ab s1 s2 n (j + 1))))"
  by pat_completeness auto
termination
  by (relation "measure (\<lambda>(ab, s1, s2, n, j). nat (n - j))") auto

declare strncmp_differ.simps [simp del]

definition size_t_of :: "int \<Rightarrow> int" where
  "size_t_of n = n mod 2 ^ 64"

text \<open>The four comparisons: \<open>*((double*)child0->_data) < *((double*)child1->_data)\<close> etc.\<close>

definition cmp_children :: "abi \<Rightarrow> pbg_expr \<Rightarrow> pbg_data \<Rightarrow> int
    \<Rightarrow> (char list \<Rightarrow> char list \<Rightarrow> bool) \<Rightarrow> pbg_error + bool" where
  "cmp_children ab e d c0 rel =
     rbind (child_ref d 1) (\<lambda>c1.
       rbind (get_expr_node e c0) (\<lambda>child0.
         rbind (data_double ab (node_data child0)) (\<lambda>x.
           rbind (get_expr_node e c1) (\<lambda>child1.
             rbind (data_double ab (node_data child1)) (\<lambda>y. Inr (rel x y))))))"

definition neq_children :: "abi \<Rightarrow> pbg_expr \<Rightarrow> pbg_data \<Rightarrow> int \<Rightarrow> pbg_error + bool" where
  "neq_children ab e d c0 =
     rbind (child_ref d 1) (\<lambda>c1.
       rbind (get_expr_node e c1) (\<lambda>child1.
         rbind (get_expr_node e c0) (\<lambda>child0.
           if node_type child1 \<noteq> node_type child0 then Inr True
           else if node_int child1 \<noteq> node_int child0 then Inr True
           else strncmp_differ ab (node_data child1) (node_data child0)
                  (size_t_of (node_int child0)) 0)))"

text \<open>
  \<open>pbg_evaluate_r\<close>. The node pointer is the node's reference (\<open>e->_static\<close> is
  reference 0); the first argument bounds the depth of the recursion.
\<close>

fun pbg_evaluate_r :: "nat \<Rightarrow> abi \<Rightarrow> pbg_expr \<Rightarrow> int \<Rightarrow> bool walk" where
  "pbg_evaluate_r 0 ab e idx = ([], None)"
| "pbg_evaluate_r (Suc k) ab e idx =
     wbind ([Visit idx], Some (get_expr_node e idx)) (\<lambda>node.
       if is_lt (node_type node) then wret (node_type node = PBG_LT_TRUE)
       else
         wbind (wlift (child_ref (node_data node) 0)) (\<lambda>c0.
           case node_type node of
             PBG_OP_NOT \<Rightarrow> wbind (pbg_evaluate_r k ab e c0) (\<lambda>b. wret (\<not> b))
           | PBG_OP_AND \<Rightarrow> and_loop (pbg_evaluate_r k ab e) (node_data node) (node_int node) 0
           | PBG_OP_OR \<Rightarrow> or_loop (pbg_evaluate_r k ab e) (node_data node) (node_int node) 0
           | PBG_OP_EQ \<Rightarrow> wlift (eq_loop ab e (node_data node) (node_int node) c0 1)
           | PBG_OP_LT \<Rightarrow> wlift (cmp_children ab e (node_data node) c0 (dbl_less ab))
           | PBG_OP_GT \<Rightarrow> wlift (cmp_children ab e (node_data node) c0 (\<lambda>x y. dbl_less ab y x))
           | PBG_OP_EXST \<Rightarrow>
               wlift (rbind (get_expr_node e c0) (\<lambda>child0. Inr (node_type child0 \<noteq> PBG_UNKNOWN)))
           | PBG_OP_NEQ \<Rightarrow> wlift (neq_children ab e (node_data node) c0)
           | PBG_OP_LTE \<Rightarrow> wlift (cmp_children ab e (node_data node) c0 (dbl_le ab))
           | PBG_OP_GTE \<Rightarrow> wlift (cmp_children ab e (node_data node) c0 (\<lambda>x y. dbl_le ab y x))
           | _ \<Rightarrow> wlift (Inl NotModelled)))"

declare pbg_evaluate_r.simps [simp del]

text \<open>
  Key resolution, the first loop of \<open>pbg_evaluate\<close>: the callback \<open>dict\<close> is called on
  the \<open>_data\<close> and \<open>_int\<close> of each key, and the results fill a fresh arena.
\<close>

function resolve_keys :: "(pbg_data \<Rightarrow> int \<Rightarrow> pbg_expr_node) \<Rightarrow> pbg_expr \<Rightarrow> int
    \<Rightarrow> (pbg_expr_node option list) walk" where
  "resolve_keys dict e i =
     (if \<not> i < e_dynamicsz e then wret []
      else wbind (wlift (slot (e_dynamic e) i)) (\<lambda>keylt.
             wbind ([Lookup (node_data keylt) (node_int keylt)],
                    Some (Inr (dict (node_data keylt) (node_int keylt)))) (\<lambda>nd.
               wbind (resolve_keys dict e (i + 1)) (\<lambda>rest. wret (Some nd # rest)))))"
  by pat_completeness auto
termination
  by (relation "measure (\<lambda>(dict, e, i). nat (e_dynamicsz e - i))") auto

declare resolve_keys.simps [simp del]

text \<open>
  \<open>pbg_evaluate\<close>: resolve the keys, swap the resolved arena in, walk from
  \<open>e->_static\<close>. The expression is handed back unchanged, so the swap back and the release
  of the resolved arena leave nothing to model.
\<close>

definition pbg_evaluate :: "nat \<Rightarrow> abi \<Rightarrow> pbg_expr \<Rightarrow> (pbg_data \<Rightarrow> int \<Rightarrow> pbg_expr_node) \<Rightarrow> bool walk" where
  "pbg_evaluate fuel ab e dict =
     wbind (resolve_keys dict e 0) (\<lambda>dynamics.
       pbg_evaluate_r fuel ab (e\<lparr>e_dynamic := dynamics\<rparr>) 0)"

section \<open>Parser\<close>

text \<open>\<open>pbg_toop\<close>.\<close>

definition pbg_toop :: "char list \<Rightarrow> int \<Rightarrow> pbg_error + pbg_node_type" where
  "pbg_toop s n =
     (if n = 1 then
        rbind (rd s 0) (\<lambda>c.
          Inr (if c = CHR ''!'' then PBG_OP_NOT
               else if c = CHR ''&'' then PBG_OP_AND
               else if c = CHR ''|'' then PBG_OP_OR
               else if c = CHR ''='' then PBG_OP_EQ
               else if c = CHR ''<'' then PBG_OP_LT
               else if c = CHR ''>'' then PBG_OP_GT
               else if c = CHR ''?'' then PBG_OP_EXST
               else PBG_UNKNOWN))
      else if n = 2 then
        rbind (rd s 0) (\<lambda>c.
          if c = CHR ''!'' then rbind (rd s 1) (\<lambda>d. Inr (if d = CHR ''='' then PBG_OP_NEQ else PBG_UNKNOWN))
          else if c = CHR ''<'' then rbind (rd s 1) (\<lambda>d. Inr (if d = CHR ''='' then PBG_OP_LTE else PBG_UNKNOWN))
          else if c = CHR ''>'' then rbind (rd s 1) (\<lambda>d. Inr (if d = CHR ''='' then PBG_OP_GTE else PBG_UNKNOWN))
          else Inr PBG_UNKNOWN)
      else Inr PBG_UNKNOWN)"

text \<open>
  An \<open>int\<close> array from \<open>malloc\<close> is a list of cells, \<open>None\<close> for a cell never written;
  \<open>cell a i\<close> is the read \<open>a[i]\<close> and \<open>store a i v\<close> the write \<open>a[i] = v\<close>. \<open>ptr_add s k\<close> is
  the pointer \<open>s + k\<close>.
\<close>

definition cell :: "int option list \<Rightarrow> int \<Rightarrow> pbg_error + int" where
  "cell a i =
     (if 0 \<le> i \<and> i < int (length a)
      then (case a ! nat i of None \<Rightarrow> Inl Uninitialised | Some v \<Rightarrow> Inr v)
      else Inl OutOfBounds)"

definition store :: "'a option list \<Rightarrow> int \<Rightarrow> 'a \<Rightarrow> pbg_error + 'a option list" where
  "store a i v =
     (if 0 \<le> i \<and> i < int (length a) then Inr (a[nat i := Some v]) else Inl OutOfBounds)"

definition ptr_add :: "char list \<Rightarrow> int \<Rightarrow> char list" where
  "ptr_add s k = (if 0 \<le> k \<and> k \<le> int (length s) then drop (nat k) s else [])"

text \<open>
  The string scan shared by both loops of \<open>pbg_parse\<close>: the new value of \<open>instring\<close>
  after the byte at \<open>i\<close>.
\<close>

definition in_string_next :: "char list \<Rightarrow> int \<Rightarrow> bool \<Rightarrow> pbg_error + bool" where
  "in_string_next s i instring =
     rbind (rd s i) (\<lambda>c.
       if \<not> instring \<and> c = CHR 0x27 then Inr (\<not> instring)
       else if instring \<and> c = CHR 0x27 then
         rbind (rd s (i - 1)) (\<lambda>p. Inr (if p \<noteq> CHR 0x5C then \<not> instring else instring))
       else Inr instring)"

text \<open>The first loop of \<open>pbg_parse\<close>: commas, keys and closings outside strings.\<close>

function count_loop :: "char list \<Rightarrow> int \<Rightarrow> int \<Rightarrow> bool \<Rightarrow> int \<Rightarrow> int \<Rightarrow> int
    \<Rightarrow> pbg_error + (int \<times> int \<times> int)" where
  "count_loop s n i instring numcommas numkeys numclosings =
     (if \<not> i < n then Inr (numcommas, numkeys, numclosings)
      else
        rbind (in_string_next s i instring) (\<lambda>ins.
          if \<not> ins then
            rbind (rd s i) (\<lambda>c.
              if c = CHR '','' then count_loop s n (i + 1) ins (numcommas + 1) numkeys numclosings
              else if c = CHR ''['' then count_loop s n (i + 1) ins numcommas (numkeys + 1) numclosings
              else if c = CHR '')'' then count_loop s n (i + 1) ins numcommas numkeys (numclosings + 1)
              else count_loop s n (i + 1) ins numcommas numkeys numclosings)
          else count_loop s n (i + 1) ins numcommas numkeys numclosings))"
  by pat_completeness auto
termination
  by (relation "measure (\<lambda>(s, n, i, instring, a, b, c). nat (n - i))") auto

declare count_loop.simps [simp del]

text \<open>
  The second loop of \<open>pbg_parse\<close>. Its variables besides \<open>i\<close>: the three arrays and
  \<open>c\<close>, \<open>f\<close>, \<open>open\<close>, \<open>instring\<close>. The source never changes \<open>c\<close>.
\<close>

record scan_state =
  sc_fields :: "int option list"
  sc_lengths :: "int option list"
  sc_closings :: "int option list"
  sc_c :: int
  sc_f :: int
  sc_open :: bool
  sc_instring :: bool

text \<open>\<open>if(str[i] == ')') closings[c] = i;\<close>\<close>

definition scan_closing :: "char list \<Rightarrow> int \<Rightarrow> scan_state \<Rightarrow> pbg_error + scan_state" where
  "scan_closing s i st =
     rbind (rd s i) (\<lambda>c.
       if c = CHR '')'' then
         rbind (store (sc_closings st) (sc_c st) i) (\<lambda>a. Inr (st\<lparr>sc_closings := a\<rparr>))
       else Inr st)"

text \<open>
  \<open>if(open && (str[i] == ')' || (str[i] == ',' && str[i-1] != ')')))
       lengths[f] = i - fields[f], f++, open = 0;\<close>
\<close>

definition scan_field_end :: "char list \<Rightarrow> int \<Rightarrow> scan_state \<Rightarrow> pbg_error + scan_state" where
  "scan_field_end s i st =
     (if \<not> sc_open st then Inr st
      else
        rbind (rd s i) (\<lambda>c.
          rbind (if c = CHR '')'' then Inr True
                 else if c = CHR '','' then rbind (rd s (i - 1)) (\<lambda>p. Inr (p \<noteq> CHR '')''))
                 else Inr False) (\<lambda>ends.
            if ends then
              rbind (cell (sc_fields st) (sc_f st)) (\<lambda>start.
                rbind (store (sc_lengths st) (sc_f st) (i - start)) (\<lambda>a.
                  Inr (st\<lparr>sc_lengths := a, sc_f := sc_f st + 1, sc_open := False\<rparr>)))
            else Inr st)))"

text \<open>
  \<open>if(!open && (str[i] == '(' || (str[i] == ',' && str[i+1] != '(')))
       fields[f] = i+1, open = 1;\<close>
\<close>

definition scan_field_start :: "char list \<Rightarrow> int \<Rightarrow> scan_state \<Rightarrow> pbg_error + scan_state" where
  "scan_field_start s i st =
     (if sc_open st then Inr st
      else
        rbind (rd s i) (\<lambda>c.
          rbind (if c = CHR ''('' then Inr True
                 else if c = CHR '','' then rbind (rd s (i + 1)) (\<lambda>q. Inr (q \<noteq> CHR ''(''))
                 else Inr False) (\<lambda>starts.
            if starts then
              rbind (store (sc_fields st) (sc_f st) (i + 1)) (\<lambda>a.
                Inr (st\<lparr>sc_fields := a, sc_open := True\<rparr>))
            else Inr st)))"

function scan_loop :: "char list \<Rightarrow> int \<Rightarrow> int \<Rightarrow> scan_state \<Rightarrow> pbg_error + scan_state" where
  "scan_loop s n i st =
     (if \<not> i < n then Inr st
      else
        rbind (in_string_next s i (sc_instring st)) (\<lambda>ins.
          if \<not> ins then
            rbind (scan_closing s i (st\<lparr>sc_instring := ins\<rparr>)) (\<lambda>st1.
              rbind (scan_field_end s i st1) (\<lambda>st2.
                rbind (scan_field_start s i st2) (\<lambda>st3. scan_loop s n (i + 1) st3)))
          else scan_loop s n (i + 1) (st\<lparr>sc_instring := ins\<rparr>)))"
  by pat_completeness auto
termination
  by (relation "measure (\<lambda>(s, n, i, st). nat (n - i))") auto

declare scan_loop.simps [simp del]

text \<open>
  What \<open>pbg_parse_r\<close> is given besides the expression and its cursor: the string, the
  three arrays, and two things the C implementation supplies: \<open>atof\<close> (here from the text
  at the pointer to the eight bytes of the \<open>double\<close>) and \<open>sizeof(pbg_type_date)\<close>.
\<close>

record parse_ctx =
  px_atof :: "char list \<Rightarrow> char list"
  px_sizeof_date :: int
  px_str :: "char list"
  px_fields :: "int option list"
  px_lengths :: "int option list"
  px_closings :: "int option list"

record int2arg =
  arg_field :: int
  arg_closing :: int

record int2ret =
  ret_arg :: int2arg
  ret_nodeidx :: int

text \<open>
  \<open>nodeidx = e->_staticsz++; node = e->_static + nodeidx; *node = ...\<close> and its
  counterpart for the dynamic arena, where the reference is \<open>-(e->_dynamicsz++)-1\<close>.
\<close>

definition new_static :: "pbg_expr \<Rightarrow> pbg_expr_node \<Rightarrow> pbg_error + (pbg_expr \<times> int)" where
  "new_static e nd =
     rbind (store (e_static e) (e_staticsz e) nd) (\<lambda>a.
       Inr (e\<lparr>e_static := a, e_staticsz := e_staticsz e + 1\<rparr>, e_staticsz e))"

definition new_dynamic :: "pbg_expr \<Rightarrow> pbg_expr_node \<Rightarrow> pbg_error + (pbg_expr \<times> int)" where
  "new_dynamic e nd =
     rbind (store (e_dynamic e) (e_dynamicsz e) nd) (\<lambda>a.
       Inr (e\<lparr>e_dynamic := a, e_dynamicsz := e_dynamicsz e + 1\<rparr>, - (e_dynamicsz e) - 1))"

text \<open>
  \<open>strncpy(dst, src, k)\<close>: the bytes of \<open>src\<close> up to a NUL byte, padded with NUL bytes to
  \<open>k\<close> bytes. \<open>copy_text\<close> is the \<open>malloc(n-2)\<close> and \<open>strncpy(_, str+1, n-2)\<close> of a KEY or
  STRING; for \<open>n < 2\<close> the size is a huge \<open>size_t\<close>, the allocation fails and the copy
  writes through a null pointer.
\<close>

definition strncpy :: "char list \<Rightarrow> nat \<Rightarrow> pbg_error + char list" where
  "strncpy src k =
     (let pre = takeWhile (\<lambda>c. c \<noteq> CHR 0x00) (take k src) in
      if length pre < k \<and> length pre = length src then Inl OutOfBounds
      else Inr (pre @ replicate (k - length pre) (CHR 0x00)))"

definition copy_text :: "char list \<Rightarrow> int \<Rightarrow> pbg_error + char list" where
  "copy_text s n = (if n - 2 < 0 then Inl NullDeref else strncpy (ptr_add s 1) (nat (n - 2)))"

text \<open>\<open>pbg_todate\<close>.\<close>

definition digit_at :: "char list \<Rightarrow> int \<Rightarrow> pbg_error + int" where
  "digit_at s i = rbind (rd s i) (\<lambda>c. Inr (int (of_char c) - 48))"

definition pbg_todate :: "char list \<Rightarrow> pbg_error + pbg_data" where
  "pbg_todate s =
     rbind (digit_at s 0) (\<lambda>y0. rbind (digit_at s 1) (\<lambda>y1.
     rbind (digit_at s 2) (\<lambda>y2. rbind (digit_at s 3) (\<lambda>y3.
     rbind (digit_at s 5) (\<lambda>m0. rbind (digit_at s 6) (\<lambda>m1.
     rbind (digit_at s 8) (\<lambda>d0. rbind (digit_at s 9) (\<lambda>d1.
       Inr (DDate (y0 * 1000 + y1 * 100 + y2 * 10 + y3) (m0 * 10 + m1) (d0 * 10 + d1))))))))))"

text \<open>
  The literal branch of \<open>pbg_parse_r\<close>: the field at \<open>s\<close> of length \<open>n\<close> is classified and
  its node created; the result is the node's reference. Where no recognizer accepts the
  field the source leaves \<open>ret.nodeidx\<close> unset.
\<close>

definition parse_literal :: "parse_ctx \<Rightarrow> pbg_expr \<Rightarrow> char list \<Rightarrow> int
    \<Rightarrow> pbg_error + (pbg_expr \<times> int)" where
  "parse_literal cx e s n =
     rbind (pbg_iskey s n) (\<lambda>iskey.
       if iskey then
         rbind (copy_text s n) (\<lambda>bs.
           new_dynamic e \<lparr>node_type = PBG_LT_KEY, node_int = n - 2, node_data = DBytes bs\<rparr>)
       else
     rbind (pbg_isdate s n) (\<lambda>isdate.
       if isdate then
         rbind (pbg_todate s) (\<lambda>d.
           new_static e \<lparr>node_type = PBG_LT_DATE, node_int = px_sizeof_date cx, node_data = d\<rparr>)
       else
     rbind (pbg_isnumber s n) (\<lambda>isnumber.
       if isnumber then
         new_static e \<lparr>node_type = PBG_LT_NUMBER, node_int = 8, node_data = DBytes (px_atof cx s)\<rparr>
       else
     rbind (pbg_isstring s n) (\<lambda>isstring.
       if isstring then
         rbind (copy_text s n) (\<lambda>bs.
           new_static e \<lparr>node_type = PBG_LT_STRING, node_int = n - 2, node_data = DBytes bs\<rparr>)
       else
     rbind (pbg_istrue s n) (\<lambda>istrue.
       if istrue then
         new_static e \<lparr>node_type = PBG_LT_TRUE, node_int = 0, node_data = DNull\<rparr>
       else
     rbind (pbg_isfalse s n) (\<lambda>isfalse.
       if isfalse then
         new_static e \<lparr>node_type = PBG_LT_FALSE, node_int = 0, node_data = DNull\<rparr>
       else Inl InvalidLiteral))))))"

text \<open>
  \<open>pbg_parse_r\<close> and its \<open>while\<close> loop over the children of an operator. Both are cut
  off (\<open>None\<close>) when the first argument runs out. The operator's node is claimed before its
  children are parsed and completed (child count and child list) after them.
\<close>

type_synonym 'a parse_result = "(pbg_error + 'a) option"

definition pbind :: "'a parse_result \<Rightarrow> ('a \<Rightarrow> 'b parse_result) \<Rightarrow> 'b parse_result" where
  "pbind m f = (case m of None \<Rightarrow> None | Some (Inl err) \<Rightarrow> Some (Inl err) | Some (Inr x) \<Rightarrow> f x)"

fun pbg_parse_r :: "nat \<Rightarrow> parse_ctx \<Rightarrow> pbg_expr \<Rightarrow> int2arg \<Rightarrow> (pbg_expr \<times> int2ret) parse_result"
  and parse_children :: "nat \<Rightarrow> parse_ctx \<Rightarrow> pbg_expr \<Rightarrow> int2arg \<Rightarrow> int list
    \<Rightarrow> (pbg_expr \<times> int2arg \<times> int list) parse_result" where
  "pbg_parse_r 0 cx e arg = None"
| "pbg_parse_r (Suc k) cx e arg =
     pbind (Some (cell (px_fields cx) (arg_field arg))) (\<lambda>start.
     pbind (Some (cell (px_lengths cx) (arg_field arg))) (\<lambda>n.
     pbind (Some (pbg_toop (ptr_add (px_str cx) start) n)) (\<lambda>type.
       if type \<noteq> PBG_UNKNOWN then
         pbind (Some (new_static e \<lparr>node_type = type, node_int = 0, node_data = DNull\<rparr>))
           (\<lambda>(e1, nodeidx).
         pbind (parse_children k cx e1 (arg\<lparr>arg_field := arg_field arg + 1\<rparr>) [])
           (\<lambda>(e2, rarg, children).
         pbind (Some (store (e_static e2) nodeidx
                  \<lparr>node_type = type, node_int = int (length children),
                   node_data = DInts children\<rparr>))
           (\<lambda>a. Some (Inr (e2\<lparr>e_static := a\<rparr>,
                    \<lparr>ret_arg = rarg\<lparr>arg_closing := arg_closing rarg + 1\<rparr>,
                     ret_nodeidx = nodeidx\<rparr>)))))
       else
         pbind (Some (parse_literal cx e (ptr_add (px_str cx) start) n)) (\<lambda>(e1, nodeidx).
           Some (Inr (e1, \<lparr>ret_arg = arg\<lparr>arg_field := arg_field arg + 1\<rparr>,
                          ret_nodeidx = nodeidx\<rparr>))))))"
| "parse_children 0 cx e rarg children = None"
| "parse_children (Suc k) cx e rarg children =
     pbind (Some (cell (px_fields cx) (arg_field rarg))) (\<lambda>start.
       if start = - 1 then Some (Inr (e, rarg, children))
       else
         pbind (Some (cell (px_closings cx) (arg_closing rarg))) (\<lambda>close.
           if \<not> start < close then Some (Inr (e, rarg, children))
           else
             pbind (pbg_parse_r k cx e rarg) (\<lambda>(e1, ret).
               parse_children k cx e1 (ret_arg ret) (children @ [ret_nodeidx ret]))))"

declare pbg_parse_r.simps [simp del]
declare parse_children.simps [simp del]

text \<open>
  \<open>pbg_parse\<close> up to the call of \<open>pbg_parse_r\<close>: the counts, the arrays, the empty arenas.
  Memory from \<open>malloc\<close> holds indeterminate values: \<open>junk\<close> is what a cell of the three
  \<open>int\<close> arrays holds before it is written, \<open>None\<close> for a cell whose read is an error.
\<close>

definition empty_expr :: "int \<Rightarrow> int \<Rightarrow> pbg_expr" where
  "empty_expr numstatic numdynamic =
     \<lparr>e_static = replicate (nat numstatic) None, e_dynamic = replicate (nat numdynamic) None,
      e_staticsz = 0, e_dynamicsz = 0\<rparr>"

definition pbg_scan :: "int option \<Rightarrow> char list \<Rightarrow> int \<Rightarrow> pbg_error + (scan_state \<times> pbg_expr)" where
  "pbg_scan junk s n =
     rbind (count_loop s n 0 False 0 0 0) (\<lambda>(numcommas, numkeys, numclosings).
       let numfields = numcommas + 1;
           numstatic = numfields - numkeys;
           numdynamic = numkeys
       in
       rbind (rd s 0) (\<lambda>c0.
         let first = (if c0 = CHR ''('' then 1 else 0) in
         rbind (store (replicate (nat (numfields + 1)) junk) 0 first) (\<lambda>fields.
           rbind (scan_loop s n first
                    \<lparr>sc_fields = fields, sc_lengths = replicate (nat numfields) junk,
                     sc_closings = replicate (nat numclosings) junk,
                     sc_c = 0, sc_f = 0, sc_open = True, sc_instring = False\<rparr>) (\<lambda>st.
             rbind (store (sc_fields st) numfields (- 1)) (\<lambda>fields'.
               Inr (st\<lparr>sc_fields := fields'\<rparr>, empty_expr numstatic numdynamic))))))"

text \<open>
  \<open>pbg_parse\<close>. The recursion of \<open>pbg_parse_r\<close> consumes a field with every call, so twice
  the number of cells of \<open>fields\<close> bounds its depth. \<open>pbg_parse_top\<close> keeps what the call of
  \<open>pbg_parse_r\<close> returns, the root's reference in it; \<open>pbg_parse\<close> drops it, as the source
  does.
\<close>

definition pbg_parse_top :: "int option \<Rightarrow> (char list \<Rightarrow> char list) \<Rightarrow> int \<Rightarrow> char list \<Rightarrow> int
    \<Rightarrow> (pbg_expr \<times> int2ret) parse_result" where
  "pbg_parse_top junk atof sizeof_date s n =
     pbind (Some (pbg_scan junk s n)) (\<lambda>(st, e).
       pbg_parse_r (2 * length (sc_fields st) + 1)
         \<lparr>px_atof = atof, px_sizeof_date = sizeof_date, px_str = s,
          px_fields = sc_fields st, px_lengths = sc_lengths st, px_closings = sc_closings st\<rparr>
         e \<lparr>arg_field = 0, arg_closing = 0\<rparr>)"

definition pbg_parse :: "int option \<Rightarrow> (char list \<Rightarrow> char list) \<Rightarrow> int \<Rightarrow> char list \<Rightarrow> int
    \<Rightarrow> pbg_expr parse_result" where
  "pbg_parse junk atof sizeof_date s n =
     pbind (pbg_parse_top junk atof sizeof_date s n) (\<lambda>(e, ret). Some (Inr e))"

section \<open>Renderer\<close>

text \<open>
  The buffer of \<open>pbg_gets\<close> is \<open>malloc(1000)\<close>. The text written so far is \<open>out\<close>, the
  cursor \<open>i\<close> is its length; \<open>put\<close> is \<open>buf[i++] = c\<close>, and \<open>put_str\<close> is a \<open>sprintf\<close>, which
  writes its text and a NUL byte after it.
\<close>

definition put :: "char \<Rightarrow> char list \<Rightarrow> pbg_error + char list" where
  "put c out = (if length out < 1000 then Inr (out @ [c]) else Inl BufferOverflow)"

fun puts :: "char list \<Rightarrow> char list \<Rightarrow> pbg_error + char list" where
  "puts [] out = Inr out"
| "puts (c # cs) out = rbind (put c out) (puts cs)"

definition put_str :: "char list \<Rightarrow> char list \<Rightarrow> pbg_error + char list" where
  "put_str txt out =
     (if length out + length txt + 1 \<le> 1000 then Inr (out @ txt) else Inl BufferOverflow)"

text \<open>
  \<open>snprintf(buf+i, w+1, "%0wd", v)\<close> for a value of at most \<open>w\<close> digits, as the date fields
  the parser produces are; other values are cut off by the size limit and leave the cursor
  beyond what was written.
\<close>

fun digits :: "nat \<Rightarrow> int \<Rightarrow> char list" where
  "digits 0 v = []"
| "digits (Suc w) v = digits w (v div 10) @ [char_of (48 + v mod 10)]"

definition put_padded :: "nat \<Rightarrow> int \<Rightarrow> char list \<Rightarrow> pbg_error + char list" where
  "put_padded w v out =
     (if 0 \<le> v \<and> v < 10 ^ w then put_str (digits w v) out else Inl NotModelled)"

text \<open>The loops \<open>for(j = 0; j < node->_int; j++) buf[i++] = data[j];\<close> of STRING and KEY.\<close>

function put_data :: "pbg_data \<Rightarrow> int \<Rightarrow> int \<Rightarrow> char list \<Rightarrow> pbg_error + char list" where
  "put_data d n j out =
     (if \<not> j < n then Inr out
      else
        rbind (case d of DBytes bs \<Rightarrow> rd bs j | DNull \<Rightarrow> Inl NullDeref
                 | DInts cs \<Rightarrow> Inl NotModelled | DDate y m dd \<Rightarrow> Inl NotModelled) (\<lambda>c.
          rbind (put c out) (put_data d n (j + 1))))"
  by pat_completeness auto
termination
  by (relation "measure (\<lambda>(d, n, j, out). nat (n - j))") auto

declare put_data.simps [simp del]

text \<open>The literal branch of \<open>pbg_gets_r\<close>; \<open>fmt\<close> is \<open>sprintf\<close> with \<open>"%.2lf"\<close>.\<close>

definition gets_literal :: "(char list \<Rightarrow> char list) \<Rightarrow> pbg_expr_node \<Rightarrow> char list
    \<Rightarrow> pbg_error + char list" where
  "gets_literal fmt node out =
     (case node_type node of
        PBG_LT_TRUE \<Rightarrow> puts ''TRUE'' out
      | PBG_LT_FALSE \<Rightarrow> puts ''FALSE'' out
      | PBG_LT_STRING \<Rightarrow>
          rbind (put (CHR 0x27) out) (\<lambda>o1.
            rbind (put_data (node_data node) (node_int node) 0 o1) (put (CHR 0x27)))
      | PBG_LT_DATE \<Rightarrow>
          (case node_data node of
             DDate y m d \<Rightarrow>
               rbind (put_padded 4 y out) (\<lambda>o1. rbind (put (CHR ''-'') o1) (\<lambda>o2.
               rbind (put_padded 2 m o2) (\<lambda>o3. rbind (put (CHR ''-'') o3) (\<lambda>o4.
                 put_padded 2 d o4))))
           | DNull \<Rightarrow> Inl NullDeref
           | _ \<Rightarrow> Inl NotModelled)
      | PBG_LT_KEY \<Rightarrow>
          rbind (put (CHR ''['') out) (\<lambda>o1.
            rbind (put_data (node_data node) (node_int node) 0 o1) (put (CHR '']'')))
      | PBG_LT_NUMBER \<Rightarrow>
          (case node_data node of
             DBytes bs \<Rightarrow> (if 8 \<le> length bs then put_str (fmt (take 8 bs)) out else Inl OutOfBounds)
           | DNull \<Rightarrow> Inl NullDeref
           | _ \<Rightarrow> Inl NotModelled)
      | _ \<Rightarrow> Inr out)"

definition op_symbol :: "pbg_node_type \<Rightarrow> char list" where
  "op_symbol t =
     (case t of
        PBG_OP_NOT \<Rightarrow> ''!'' | PBG_OP_AND \<Rightarrow> ''&'' | PBG_OP_OR \<Rightarrow> ''|'' | PBG_OP_EQ \<Rightarrow> ''=''
      | PBG_OP_LT \<Rightarrow> ''<'' | PBG_OP_GT \<Rightarrow> ''>'' | PBG_OP_EXST \<Rightarrow> ''?''
      | PBG_OP_NEQ \<Rightarrow> ''!='' | PBG_OP_LTE \<Rightarrow> ''<='' | PBG_OP_GTE \<Rightarrow> ''>=''
      | _ \<Rightarrow> [])"

text \<open>
  The loop of \<open>pbg_gets_r\<close> over an operator's children; \<open>gr\<close> is the recursive call on a
  child reference.
\<close>

function gets_children :: "(int \<Rightarrow> char list \<Rightarrow> char list parse_result) \<Rightarrow> pbg_data \<Rightarrow> int \<Rightarrow> int
    \<Rightarrow> char list \<Rightarrow> char list parse_result" where
  "gets_children gr d n j out =
     (if \<not> j < n then Some (Inr out)
      else
        pbind (Some (child_ref d j)) (\<lambda>c.
          pbind (gr c out) (\<lambda>o1.
            if j \<noteq> n - 1 then pbind (Some (put (CHR '','') o1)) (gets_children gr d n (j + 1))
            else gets_children gr d n (j + 1) o1)))"
  by pat_completeness auto
termination
  by (relation "measure (\<lambda>(gr, d, n, j, out). nat (n - j))") auto

declare gets_children.simps [simp del]

text \<open>\<open>pbg_gets_r\<close>, the first argument bounding the depth of its recursion.\<close>

fun pbg_gets_r :: "nat \<Rightarrow> (char list \<Rightarrow> char list) \<Rightarrow> pbg_expr \<Rightarrow> int \<Rightarrow> char list
    \<Rightarrow> char list parse_result" where
  "pbg_gets_r 0 fmt e idx out = None"
| "pbg_gets_r (Suc k) fmt e idx out =
     pbind (Some (get_expr_node e idx)) (\<lambda>node.
       if is_lt (node_type node) then Some (gets_literal fmt node out)
       else
         pbind (Some (put (CHR ''('') out)) (\<lambda>o1.
         pbind (Some (puts (op_symbol (node_type node)) o1)) (\<lambda>o2.
         pbind (Some (put (CHR '','') o2)) (\<lambda>o3.
         pbind (gets_children (pbg_gets_r k fmt e) (node_data node) (node_int node) 0 o3) (\<lambda>o4.
           Some (put (CHR '')'') o4))))))"

declare pbg_gets_r.simps [simp del]

text \<open>\<open>pbg_gets\<close>: the text before the closing NUL byte, which has to fit as well.\<close>

definition pbg_gets :: "nat \<Rightarrow> (char list \<Rightarrow> char list) \<Rightarrow> pbg_expr \<Rightarrow> char list parse_result" where
  "pbg_gets fuel fmt e =
     pbind (pbg_gets_r fuel fmt e 0 []) (\<lambda>out.
       if length out < 1000 then Some (Inr out) else Some (Inl BufferOverflow))"

section \<open>A concrete C implementation and example expressions\<close>

text \<open>
  The representations of the x86-64 and AArch64 Linux ABIs: \<open>int\<close> is 32 bits, two's
  complement, little-endian; \<open>pbg_type_date\<close> is three \<open>int\<close>s without padding; \<open>double\<close>
  is IEEE-754 binary64, little-endian. Two such doubles that are not NaN compare as their
  sign-magnitude bit patterns do.
\<close>

definition le32 :: "int \<Rightarrow> char list" where
  "le32 i = map (\<lambda>k. char_of ((i div 256 ^ k) mod 256)) [0, 1, 2, 3]"

definition dbl_bits :: "char list \<Rightarrow> int" where
  "dbl_bits bs = foldr (\<lambda>c acc. of_char c + 256 * acc) bs 0"

definition dbl_nan :: "int \<Rightarrow> bool" where
  "dbl_nan w = ((w div 2 ^ 52) mod 2 ^ 11 = 2047 \<and> w mod 2 ^ 52 \<noteq> 0)"

definition dbl_key :: "int \<Rightarrow> int" where
  "dbl_key w = (if w < 2 ^ 63 then w else - (w - 2 ^ 63))"

definition ieee_less :: "char list \<Rightarrow> char list \<Rightarrow> bool" where
  "ieee_less x y = (\<not> dbl_nan (dbl_bits x) \<and> \<not> dbl_nan (dbl_bits y)
      \<and> dbl_key (dbl_bits x) < dbl_key (dbl_bits y))"

definition ieee_le :: "char list \<Rightarrow> char list \<Rightarrow> bool" where
  "ieee_le x y = (\<not> dbl_nan (dbl_bits x) \<and> \<not> dbl_nan (dbl_bits y)
      \<and> dbl_key (dbl_bits x) \<le> dbl_key (dbl_bits y))"

definition lp64 :: abi where
  "lp64 = \<lparr>ints_repr = (\<lambda>cs. concat (map le32 cs)),
           date_repr = (\<lambda>y m d. le32 y @ le32 m @ le32 d),
           dbl_less = ieee_less, dbl_le = ieee_le\<rparr>"

text \<open>Nodes and expressions as the parser lays them out.\<close>

definition lit :: "pbg_node_type \<Rightarrow> char list \<Rightarrow> pbg_expr_node" where
  "lit t bs = \<lparr>node_type = t, node_int = int (length bs), node_data = DBytes bs\<rparr>"

definition bool_lit :: "pbg_node_type \<Rightarrow> pbg_expr_node" where
  "bool_lit t = \<lparr>node_type = t, node_int = 0, node_data = DNull\<rparr>"

definition op_node :: "pbg_node_type \<Rightarrow> int list \<Rightarrow> pbg_expr_node" where
  "op_node t cs = \<lparr>node_type = t, node_int = int (length cs), node_data = DInts cs\<rparr>"

definition expr_of :: "pbg_expr_node list \<Rightarrow> pbg_expr_node list \<Rightarrow> pbg_expr" where
  "expr_of st dy = \<lparr>e_static = map Some st, e_dynamic = map Some dy,
      e_staticsz = int (length st), e_dynamicsz = int (length dy)\<rparr>"

text \<open>
  \<open>(&,TRUE,FALSE,_)\<close> and \<open>(|,FALSE,TRUE,_)\<close>, the third child reference pointing outside the
  arena: visiting it would be an error.
\<close>

definition and_example :: pbg_expr where
  "and_example =
     expr_of [op_node PBG_OP_AND [1, 2, 7], bool_lit PBG_LT_TRUE, bool_lit PBG_LT_FALSE] []"

definition or_example :: pbg_expr where
  "or_example =
     expr_of [op_node PBG_OP_OR [1, 2, 7], bool_lit PBG_LT_FALSE, bool_lit PBG_LT_TRUE] []"

text \<open>The bytes of the doubles 1.0 and 2.0.\<close>

definition dbl_one :: "char list" where
  "dbl_one = [CHR 0x00, CHR 0x00, CHR 0x00, CHR 0x00, CHR 0x00, CHR 0x00, CHR 0xF0, CHR 0x3F]"

definition dbl_two :: "char list" where
  "dbl_two = [CHR 0x00, CHR 0x00, CHR 0x00, CHR 0x00, CHR 0x00, CHR 0x00, CHR 0x00, CHR 0x40]"

text \<open>\<open>(=,a,b)\<close> and \<open>(!=,a,b)\<close> for two literal nodes.\<close>

definition eq_example :: "pbg_expr_node \<Rightarrow> pbg_expr_node \<Rightarrow> pbg_expr" where
  "eq_example a b = expr_of [op_node PBG_OP_EQ [1, 2], a, b] []"

definition neq_example :: "pbg_expr_node \<Rightarrow> pbg_expr_node \<Rightarrow> pbg_expr" where
  "neq_example a b = expr_of [op_node PBG_OP_NEQ [1, 2], a, b] []"

text \<open>\<open>(<,'abcdefgh','abcdefgh')\<close>.\<close>

definition lt_example :: pbg_expr where
  "lt_example = expr_of [op_node PBG_OP_LT [1, 2],
     lit PBG_LT_STRING ''abcdefgh'', lit PBG_LT_STRING ''abcdefgh''] []"

text \<open>\<open>(&,FALSE,[k])\<close>.\<close>

definition key_example :: pbg_expr where
  "key_example = expr_of [op_node PBG_OP_AND [1, - 1], bool_lit PBG_LT_FALSE] [lit PBG_LT_KEY ''k'']"

text \<open>What the parser builds from \<open>([k])\<close>: no static node, one key.\<close>

definition bare_key_expr :: pbg_expr where
  "bare_key_expr = \<lparr>e_static = [], e_dynamic = [Some (lit PBG_LT_KEY ''k'')],
     e_staticsz = 0, e_dynamicsz = 1\<rparr>"

text \<open>
  A key of 1000 bytes, the expression \<open>(?,[k...k])\<close> on it: its text, what the parser
  builds from the text, and the arrays of the scan.
\<close>

definition long_key :: "char list" where
  "long_key = replicate 1000 (CHR ''k'')"

definition long_key_text :: "char list" where
  "long_key_text = ''(?,['' @ long_key @ ''])''"

definition long_key_expr :: pbg_expr where
  "long_key_expr = expr_of [op_node PBG_OP_EXST [- 1]] [lit PBG_LT_KEY long_key]"

definition long_cx :: "(char list \<Rightarrow> char list) \<Rightarrow> int \<Rightarrow> parse_ctx" where
  "long_cx atof szd = \<lparr>px_atof = atof, px_sizeof_date = szd, px_str = long_key_text,
          px_fields = [Some 1, Some 3, Some (- 1)], px_lengths = [Some 1, Some 1002],
          px_closings = [Some 1005]\<rparr>"

section \<open>Notions the properties are stated with\<close>

text \<open>
  The elements of a list up to and including the first one that satisfies \<open>P\<close> (all of
  them when none does): the children a short-circuiting loop visits.
\<close>

fun upto_first :: "('a \<Rightarrow> bool) \<Rightarrow> 'a list \<Rightarrow> 'a list" where
  "upto_first P [] = []"
| "upto_first P (x # xs) = (if P x then [x] else x # upto_first P xs)"

text \<open>The events of the walks of the given children, one child after the other.\<close>

definition child_walks :: "(int \<Rightarrow> bool walk) \<Rightarrow> int list \<Rightarrow> event list" where
  "child_walks ev cs = concat (map (\<lambda>c. fst (ev c)) cs)"

text \<open>
  The payload of a node: the first \<open>_int\<close> bytes at \<open>_data\<close> (none when \<open>_int\<close> is not
  positive). \<open>_int\<close> is the payload length.
\<close>

definition payload :: "abi \<Rightarrow> pbg_expr_node \<Rightarrow> pbg_error + char list" where
  "payload ab nd =
     (if node_int nd \<le> 0 then Inr []
      else rbind (data_bytes ab (node_data nd)) (\<lambda>bs.
             if nat (node_int nd) \<le> length bs then Inr (take (nat (node_int nd)) bs)
             else Inl OutOfBounds))"

definition is_visit :: "event \<Rightarrow> bool" where
  "is_visit ev = (case ev of Visit i \<Rightarrow> True | Lookup d n \<Rightarrow> False)"

text \<open>The callback invocation for a key node.\<close>

definition key_lookup :: "pbg_expr_node \<Rightarrow> event" where
  "key_lookup nd = Lookup (node_data nd) (node_int nd)"

text \<open>What the callback returns for a key node.\<close>

definition resolved :: "(pbg_data \<Rightarrow> int \<Rightarrow> pbg_expr_node) \<Rightarrow> pbg_expr_node \<Rightarrow> pbg_expr_node" where
  "resolved dict nd = dict (node_data nd) (node_int nd)"

text \<open>The cells of \<open>fields\<close> from the cursor on.\<close>

definition fields_left :: "parse_ctx \<Rightarrow> int2arg \<Rightarrow> nat" where
  "fields_left cx arg = nat (int (length (px_fields cx)) - arg_field arg)"

text \<open>
  The layout the parser produces: a child of a static node is a key or a static node
  stored after its parent, and the dynamic arena holds literals only.
\<close>

definition forward_refs :: "pbg_expr \<Rightarrow> bool" where
  "forward_refs e =
     ((\<forall>i nd cs. slot (e_static e) i = Inr nd \<and> node_data nd = DInts cs \<longrightarrow>
          (\<forall>c\<in>set cs. c < 0 \<or> i < c))
      \<and> (\<forall>i nd. slot (e_dynamic e) i = Inr nd \<longrightarrow> is_lt (node_type nd)))"

text \<open>A walk that was not cut off.\<close>

definition returns :: "'a walk \<Rightarrow> bool" where
  "returns w = (snd w \<noteq> None)"

section \<open>Properties of the evaluator\<close>

lemma wbind_ok: "wbind (t, Some (Inr x)) f = (t @ fst (f x), snd (f x))"
  by (simp add: wbind_def split: prod.splits)

lemma wbind_wlift_ok: "wbind (wlift (Inr x)) f = f x"
  by (simp add: wbind_def wlift_def split: prod.splits)

lemma child_ref_ints: "i < length cs \<Longrightarrow> child_ref (DInts cs) (int i) = Inr (cs ! i)"
  by (simp add: child_ref_def)

lemma get_expr_node_static:
  "0 \<le> i \<Longrightarrow> nat i < length st \<Longrightarrow> get_expr_node (expr_of st dy) i = Inr (st ! nat i)"
  by (simp add: get_expr_node_def expr_of_def slot_def)

lemma get_expr_node_dynamic:
  "i < 0 \<Longrightarrow> nat (- (i + 1)) < length dy \<Longrightarrow>
   get_expr_node (expr_of st dy) i = Inr (dy ! nat (- (i + 1)))"
  by (simp add: get_expr_node_def expr_of_def slot_def)

lemma evaluate_r_literal:
  "get_expr_node e idx = Inr nd \<Longrightarrow> is_lt (node_type nd) \<Longrightarrow>
   pbg_evaluate_r (Suc k) ab e idx = ([Visit idx], Some (Inr (node_type nd = PBG_LT_TRUE)))"
  by (simp add: pbg_evaluate_r.simps wbind_ok wret_def)

lemma and_loop_step:
  "i < length cs \<Longrightarrow> and_loop ev (DInts cs) (int (length cs)) (int i) =
     wbind (ev (cs ! i)) (\<lambda>b. if \<not> b then wret False
        else and_loop ev (DInts cs) (int (length cs)) (int i + 1))"
  by (subst and_loop.simps) (simp add: wbind_wlift_ok child_ref_ints)

lemma and_loop_children:
  assumes "i \<le> length cs"
    and "\<forall>c\<in>set (upto_first (\<lambda>c. snd (ev c) = Some (Inr False)) (drop i cs)).
           \<exists>b. snd (ev c) = Some (Inr b)"
  shows "and_loop ev (DInts cs) (int (length cs)) (int i) =
           (child_walks ev (upto_first (\<lambda>c. snd (ev c) = Some (Inr False)) (drop i cs)),
            Some (Inr (\<forall>c\<in>set (drop i cs). snd (ev c) = Some (Inr True))))"
  using assms
proof (induction "length cs - i" arbitrary: i)
  case 0
  then have "i = length cs" by simp
  then show ?case
    by (subst and_loop.simps) (simp add: wret_def child_walks_def)
next
  case (Suc n)
  then have lt: "i < length cs" by simp
  have dr: "drop i cs = cs ! i # drop (Suc i) cs"
    using lt by (simp add: Cons_nth_drop_Suc)
  from Suc.prems(2) obtain b where b: "snd (ev (cs ! i)) = Some (Inr b)"
    unfolding dr by (auto split: if_splits)
  obtain t where ev: "ev (cs ! i) = (t, Some (Inr b))"
    using b by (cases "ev (cs ! i)") auto
  show ?case
  proof (cases b)
    case False
    then show ?thesis
      using lt ev
      by (simp add: and_loop_step dr wbind_ok wret_def child_walks_def)
  next
    case True
    have "and_loop ev (DInts cs) (int (length cs)) (int (Suc i)) =
           (child_walks ev (upto_first (\<lambda>c. snd (ev c) = Some (Inr False)) (drop (Suc i) cs)),
            Some (Inr (\<forall>c\<in>set (drop (Suc i) cs). snd (ev c) = Some (Inr True))))"
    proof (rule Suc.hyps(1))
      show "n = length cs - Suc i" using Suc.hyps(2) by simp
      show "Suc i \<le> length cs" using lt by simp
      show "\<forall>c\<in>set (upto_first (\<lambda>c. snd (ev c) = Some (Inr False)) (drop (Suc i) cs)).
           \<exists>b. snd (ev c) = Some (Inr b)"
        using Suc.prems(2) True ev unfolding dr by simp
    qed
    moreover have "int (Suc i) = int i + 1" by simp
    ultimately show ?thesis
      using lt ev True
      by (simp add: and_loop_step dr wbind_ok child_walks_def del: of_nat_Suc)
  qed
qed


lemma or_loop_step:
  "i < length cs \<Longrightarrow> or_loop ev (DInts cs) (int (length cs)) (int i) =
     wbind (ev (cs ! i)) (\<lambda>b. if b then wret True
        else or_loop ev (DInts cs) (int (length cs)) (int i + 1))"
  by (subst or_loop.simps) (simp add: wbind_wlift_ok child_ref_ints)

lemma or_loop_children:
  assumes "i \<le> length cs"
    and "\<forall>c\<in>set (upto_first (\<lambda>c. snd (ev c) = Some (Inr True)) (drop i cs)).
           \<exists>b. snd (ev c) = Some (Inr b)"
  shows "or_loop ev (DInts cs) (int (length cs)) (int i) =
           (child_walks ev (upto_first (\<lambda>c. snd (ev c) = Some (Inr True)) (drop i cs)),
            Some (Inr (\<exists>c\<in>set (drop i cs). snd (ev c) = Some (Inr True))))"
  using assms
proof (induction "length cs - i" arbitrary: i)
  case 0
  then have "i = length cs" by simp
  then show ?case
    by (subst or_loop.simps) (simp add: wret_def child_walks_def)
next
  case (Suc n)
  then have lt: "i < length cs" by simp
  have dr: "drop i cs = cs ! i # drop (Suc i) cs"
    using lt by (simp add: Cons_nth_drop_Suc)
  from Suc.prems(2) obtain b where b: "snd (ev (cs ! i)) = Some (Inr b)"
    unfolding dr by (auto split: if_splits)
  obtain t where ev: "ev (cs ! i) = (t, Some (Inr b))"
    using b by (cases "ev (cs ! i)") auto
  show ?case
  proof (cases b)
    case True
    then show ?thesis
      using lt ev
      by (simp add: or_loop_step dr wbind_ok wret_def child_walks_def)
  next
    case False
    have "or_loop ev (DInts cs) (int (length cs)) (int (Suc i)) =
           (child_walks ev (upto_first (\<lambda>c. snd (ev c) = Some (Inr True)) (drop (Suc i) cs)),
            Some (Inr (\<exists>c\<in>set (drop (Suc i) cs). snd (ev c) = Some (Inr True))))"
    proof (rule Suc.hyps(1))
      show "n = length cs - Suc i" using Suc.hyps(2) by simp
      show "Suc i \<le> length cs" using lt by simp
      show "\<forall>c\<in>set (upto_first (\<lambda>c. snd (ev c) = Some (Inr True)) (drop (Suc i) cs)).
           \<exists>b. snd (ev c) = Some (Inr b)"
        using Suc.prems(2) False ev unfolding dr by simp
    qed
    moreover have "int (Suc i) = int i + 1" by simp
    ultimately show ?thesis
      using lt ev False
      by (simp add: or_loop_step dr wbind_ok child_walks_def del: of_nat_Suc)
  qed
qed

lemma evaluate_r_operator:
  assumes "get_expr_node e idx = Inr nd" and "\<not> is_lt (node_type nd)"
    and "child_ref (node_data nd) 0 = Inr c0"
  shows "pbg_evaluate_r (Suc k) ab e idx =
     wbind ([Visit idx], Some (Inr nd)) (\<lambda>node.
           case node_type node of
             PBG_OP_NOT \<Rightarrow> wbind (pbg_evaluate_r k ab e c0) (\<lambda>b. wret (\<not> b))
           | PBG_OP_AND \<Rightarrow> and_loop (pbg_evaluate_r k ab e) (node_data node) (node_int node) 0
           | PBG_OP_OR \<Rightarrow> or_loop (pbg_evaluate_r k ab e) (node_data node) (node_int node) 0
           | PBG_OP_EQ \<Rightarrow> wlift (eq_loop ab e (node_data node) (node_int node) c0 1)
           | PBG_OP_LT \<Rightarrow> wlift (cmp_children ab e (node_data node) c0 (dbl_less ab))
           | PBG_OP_GT \<Rightarrow> wlift (cmp_children ab e (node_data node) c0 (\<lambda>x y. dbl_less ab y x))
           | PBG_OP_EXST \<Rightarrow>
               wlift (rbind (get_expr_node e c0) (\<lambda>child0. Inr (node_type child0 \<noteq> PBG_UNKNOWN)))
           | PBG_OP_NEQ \<Rightarrow> wlift (neq_children ab e (node_data node) c0)
           | PBG_OP_LTE \<Rightarrow> wlift (cmp_children ab e (node_data node) c0 (dbl_le ab))
           | PBG_OP_GTE \<Rightarrow> wlift (cmp_children ab e (node_data node) c0 (\<lambda>x y. dbl_le ab y x))
           | _ \<Rightarrow> wlift (Inl NotModelled))"
  using assms by (simp add: pbg_evaluate_r.simps wbind_ok wbind_wlift_ok)

text \<open>
  C1. An AND node whose visited children all evaluate returns true iff every child
  evaluates to true, and an OR node returns true iff some child evaluates to true. The walk
  visits the children in stored order and stops at the first false child (AND) or the
  first true child (OR): the events are the node's own visit followed by the walks of the
  children up to and including that child, and later children are neither visited nor
  required to evaluate.
\<close>

theorem and_or_short_circuit:
  assumes "get_expr_node e idx = Inr nd"
    and "node_data nd = DInts cs" and "node_int nd = int (length cs)" and "cs \<noteq> []"
    and "ev = pbg_evaluate_r k ab e"
  shows "(node_type nd = PBG_OP_AND \<longrightarrow>
           (\<forall>c\<in>set (upto_first (\<lambda>c. snd (ev c) = Some (Inr False)) cs).
              \<exists>b. snd (ev c) = Some (Inr b)) \<longrightarrow>
           pbg_evaluate_r (Suc k) ab e idx =
             (Visit idx # child_walks ev (upto_first (\<lambda>c. snd (ev c) = Some (Inr False)) cs),
              Some (Inr (\<forall>c\<in>set cs. snd (ev c) = Some (Inr True)))))
       \<and> (node_type nd = PBG_OP_OR \<longrightarrow>
           (\<forall>c\<in>set (upto_first (\<lambda>c. snd (ev c) = Some (Inr True)) cs).
              \<exists>b. snd (ev c) = Some (Inr b)) \<longrightarrow>
           pbg_evaluate_r (Suc k) ab e idx =
             (Visit idx # child_walks ev (upto_first (\<lambda>c. snd (ev c) = Some (Inr True)) cs),
              Some (Inr (\<exists>c\<in>set cs. snd (ev c) = Some (Inr True)))))"
proof -
  have c0: "child_ref (node_data nd) 0 = Inr (cs ! 0)"
    using assms(2,4) child_ref_ints [of 0 cs] by simp
  have a: "and_loop ev (DInts cs) (int (length cs)) 0 =
           (child_walks ev (upto_first (\<lambda>c. snd (ev c) = Some (Inr False)) cs),
            Some (Inr (\<forall>c\<in>set cs. snd (ev c) = Some (Inr True))))"
    if "\<forall>c\<in>set (upto_first (\<lambda>c. snd (ev c) = Some (Inr False)) cs).
              \<exists>b. snd (ev c) = Some (Inr b)"
    using and_loop_children [of 0 cs ev] that by simp
  have o: "or_loop ev (DInts cs) (int (length cs)) 0 =
           (child_walks ev (upto_first (\<lambda>c. snd (ev c) = Some (Inr True)) cs),
            Some (Inr (\<exists>c\<in>set cs. snd (ev c) = Some (Inr True))))"
    if "\<forall>c\<in>set (upto_first (\<lambda>c. snd (ev c) = Some (Inr True)) cs).
              \<exists>b. snd (ev c) = Some (Inr b)"
    using or_loop_children [of 0 cs ev] that by simp
  show ?thesis
  proof (intro conjI impI)
    assume t: "node_type nd = PBG_OP_AND"
      and h: "\<forall>c\<in>set (upto_first (\<lambda>c. snd (ev c) = Some (Inr False)) cs).
              \<exists>b. snd (ev c) = Some (Inr b)"
    have "\<not> is_lt (node_type nd)" using t by (simp add: is_lt_def)
    from evaluate_r_operator [OF assms(1) this c0, of k ab] a [OF h]
    show "pbg_evaluate_r (Suc k) ab e idx =
             (Visit idx # child_walks ev (upto_first (\<lambda>c. snd (ev c) = Some (Inr False)) cs),
              Some (Inr (\<forall>c\<in>set cs. snd (ev c) = Some (Inr True))))"
      using t assms(2,3,5) by (simp add: wbind_ok)
  next
    assume t: "node_type nd = PBG_OP_OR"
      and h: "\<forall>c\<in>set (upto_first (\<lambda>c. snd (ev c) = Some (Inr True)) cs).
              \<exists>b. snd (ev c) = Some (Inr b)"
    have "\<not> is_lt (node_type nd)" using t by (simp add: is_lt_def)
    from evaluate_r_operator [OF assms(1) this c0, of k ab] o [OF h]
    show "pbg_evaluate_r (Suc k) ab e idx =
             (Visit idx # child_walks ev (upto_first (\<lambda>c. snd (ev c) = Some (Inr True)) cs),
              Some (Inr (\<exists>c\<in>set cs. snd (ev c) = Some (Inr True))))"
      using t assms(2,3,5) by (simp add: wbind_ok)
  qed
qed

theorem and_or_short_circuit_witness:
  "pbg_evaluate_r (Suc (Suc 0)) lp64 and_example 0 = ([Visit 0, Visit 1, Visit 2], Some (Inr False))
   \<and> pbg_evaluate_r (Suc (Suc 0)) lp64 or_example 0 = ([Visit 0, Visit 1, Visit 2], Some (Inr True))"
proof -
  have t: "pbg_evaluate_r (Suc 0) lp64 and_example 1 = ([Visit 1], Some (Inr True))"
    by (simp add: and_example_def get_expr_node_static evaluate_r_literal bool_lit_def is_lt_def)
  have f: "pbg_evaluate_r (Suc 0) lp64 and_example 2 = ([Visit 2], Some (Inr False))"
    by (simp add: and_example_def get_expr_node_static evaluate_r_literal bool_lit_def is_lt_def)
  have f': "pbg_evaluate_r (Suc 0) lp64 or_example 1 = ([Visit 1], Some (Inr False))"
    by (simp add: or_example_def get_expr_node_static evaluate_r_literal bool_lit_def is_lt_def)
  have t': "pbg_evaluate_r (Suc 0) lp64 or_example 2 = ([Visit 2], Some (Inr True))"
    by (simp add: or_example_def get_expr_node_static evaluate_r_literal bool_lit_def is_lt_def)
  have a: "get_expr_node and_example 0 = Inr (op_node PBG_OP_AND [1, 2, 7])"
    by (simp add: and_example_def get_expr_node_static)
  have b: "get_expr_node or_example 0 = Inr (op_node PBG_OP_OR [1, 2, 7])"
    by (simp add: or_example_def get_expr_node_static)
  from and_or_short_circuit [OF a, of "[1, 2, 7]" "pbg_evaluate_r (Suc 0) lp64 and_example" "Suc 0" lp64]
  have "pbg_evaluate_r (Suc (Suc 0)) lp64 and_example 0 = ([Visit 0, Visit 1, Visit 2], Some (Inr False))"
    by (auto simp add: op_node_def t f child_walks_def)
  moreover
  from and_or_short_circuit [OF b, of "[1, 2, 7]" "pbg_evaluate_r (Suc 0) lp64 or_example" "Suc 0" lp64]
  have "pbg_evaluate_r (Suc (Suc 0)) lp64 or_example 0 = ([Visit 0, Visit 1, Visit 2], Some (Inr True))"
    by (auto simp add: op_node_def t' f' child_walks_def)
  ultimately show ?thesis by simp
qed

lemma bytes_differ_nonpos: "n \<le> j \<Longrightarrow> bytes_differ ab d0 di n j = Inr False"
  by (subst bytes_differ.simps) simp

lemma bytes_differ_take:
  assumes "data_bytes ab d0 = Inr b0" and "data_bytes ab di = Inr bi"
    and "n \<le> length b0" and "n \<le> length bi" and "j \<le> n"
  shows "bytes_differ ab d0 di (int n) (int j) = Inr (drop j (take n b0) \<noteq> drop j (take n bi))"
  using assms(5)
proof (induction "n - j" arbitrary: j)
  case 0
  then show ?case by (simp add: bytes_differ_nonpos)
next
  case (Suc m)
  then have lt: "j < n" by simp
  have r0: "data_byte ab d0 (int j) = Inr (b0 ! j)"
    using lt assms(1,3) by (simp add: data_byte_def rbind_def rd_def)
  have ri: "data_byte ab di (int j) = Inr (bi ! j)"
    using lt assms(2,4) by (simp add: data_byte_def rbind_def rd_def)
  have d0: "drop j (take n b0) = b0 ! j # drop (Suc j) (take n b0)"
    using lt assms(3) by (simp add: Cons_nth_drop_Suc [symmetric])
  have di: "drop j (take n bi) = bi ! j # drop (Suc j) (take n bi)"
    using lt assms(4) by (simp add: Cons_nth_drop_Suc [symmetric])
  have ih: "bytes_differ ab d0 di (int n) (int (Suc j)) =
      Inr (drop (Suc j) (take n b0) \<noteq> drop (Suc j) (take n bi))"
    using Suc.hyps(2) lt by (intro Suc.hyps(1)) simp_all
  have "int (Suc j) = int j + 1" by simp
  with ih show ?case
    using lt r0 ri
    by (subst bytes_differ.simps) (simp add: rbind_def d0 di del: of_nat_Suc)
qed

lemma bytes_differ_payload:
  assumes "payload ab c0 = Inr p0" and "payload ab ci = Inr p1" and "node_int ci = node_int c0"
  shows "bytes_differ ab (node_data c0) (node_data ci) (node_int c0) 0 = Inr (p0 \<noteq> p1)"
proof (cases "node_int c0 \<le> 0")
  case True
  then show ?thesis
    using assms by (simp add: bytes_differ_nonpos payload_def)
next
  case False
  then obtain b0 where b0: "data_bytes ab (node_data c0) = Inr b0" "nat (node_int c0) \<le> length b0"
      "p0 = take (nat (node_int c0)) b0"
    using assms(1) by (auto simp: payload_def rbind_def split: sum.splits if_splits)
  from False obtain b1 where b1: "data_bytes ab (node_data ci) = Inr b1" "nat (node_int c0) \<le> length b1"
      "p1 = take (nat (node_int c0)) b1"
    using assms(2,3) by (auto simp: payload_def rbind_def split: sum.splits if_splits)
  from bytes_differ_take [OF b0(1) b1(1) b0(2) b1(2), of 0] False
  show ?thesis by (simp add: b0(3) b1(3))
qed

lemma eq_loop_children:
  assumes m: "map (get_expr_node e) cs = map Inr chs"
    and p: "\<forall>ch\<in>set chs. \<exists>p. payload ab ch = Inr p"
    and ne: "0 < length cs" and "i \<le> length cs"
  shows "eq_loop ab e (DInts cs) (int (length cs)) (cs ! 0) (int i) =
     Inr (\<forall>ch\<in>set (drop i chs). node_type ch = node_type (chs ! 0)
            \<and> node_int ch = node_int (chs ! 0) \<and> payload ab ch = payload ab (chs ! 0))"
  using assms(4)
proof (induction "length cs - i" arbitrary: i)
  case 0
  then have "i = length cs" by simp
  moreover have len: "length chs = length cs"
    using m by (metis length_map)
  ultimately show ?case
    by (subst eq_loop.simps) simp
next
  case (Suc n)
  then have lt: "i < length cs" by simp
  have len: "length chs = length cs"
    using m by (metis length_map)
  have gi: "get_expr_node e (cs ! i) = Inr (chs ! i)"
    using m lt len by (metis nth_map)
  have g0: "get_expr_node e (cs ! 0) = Inr (chs ! 0)"
    using m ne len by (metis nth_map)
  have dr: "drop i chs = chs ! i # drop (Suc i) chs"
    using lt len by (simp add: Cons_nth_drop_Suc)
  obtain p0 where p0: "payload ab (chs ! 0) = Inr p0"
    using p ne len by (metis nth_mem)
  obtain pi where pi: "payload ab (chs ! i) = Inr pi"
    using p lt len by (metis nth_mem)
  have ih: "eq_loop ab e (DInts cs) (int (length cs)) (cs ! 0) (int (Suc i)) =
     Inr (\<forall>ch\<in>set (drop (Suc i) chs). node_type ch = node_type (chs ! 0)
            \<and> node_int ch = node_int (chs ! 0) \<and> payload ab ch = payload ab (chs ! 0))"
    using Suc.hyps(2) lt by (intro Suc.hyps(1)) simp_all
  have s: "int (Suc i) = int i + 1" by simp
  show ?case
  proof (cases "node_int (chs ! i) \<noteq> node_int (chs ! 0) \<or> node_type (chs ! i) \<noteq> node_type (chs ! 0)")
    case True
    then show ?thesis
      using lt gi g0
      by (subst eq_loop.simps) (auto simp add: child_ref_ints rbind_def dr)
  next
    case False
    then have same: "node_int (chs ! i) = node_int (chs ! 0)" "node_type (chs ! i) = node_type (chs ! 0)"
      by simp_all
    from bytes_differ_payload [OF p0 pi same(1)]
    have bd: "bytes_differ ab (node_data (chs ! 0)) (node_data (chs ! i)) (node_int (chs ! 0)) 0
        = Inr (p0 \<noteq> pi)" .
    show ?thesis
      using lt gi g0 same bd ih s p0 pi
      by (subst eq_loop.simps) (auto simp add: child_ref_ints rbind_def dr simp del: of_nat_Suc)
  qed
qed

text \<open>
  C2. An EQ node with at least two children, each with a readable payload, returns true
  iff every child has the kind of child 0, the payload length of child 0 and the payload
  bytes of child 0.
\<close>

theorem eq_structural:
  assumes "get_expr_node e idx = Inr nd" and "node_type nd = PBG_OP_EQ"
    and "node_data nd = DInts cs" and "node_int nd = int (length cs)" and "2 \<le> length cs"
    and "map (get_expr_node e) cs = map Inr chs"
    and "\<forall>ch\<in>set chs. \<exists>p. payload ab ch = Inr p"
  shows "pbg_evaluate_r (Suc k) ab e idx =
     ([Visit idx],
      Some (Inr (\<forall>ch\<in>set (tl chs). node_type ch = node_type (hd chs)
                   \<and> node_int ch = node_int (hd chs) \<and> payload ab ch = payload ab (hd chs))))"
proof -
  have len: "length chs = length cs"
    using assms(6) by (metis length_map)
  have c0: "child_ref (node_data nd) 0 = Inr (cs ! 0)"
    using assms(3,5) child_ref_ints [of 0 cs] by (cases cs) simp_all
  have nl: "\<not> is_lt (node_type nd)"
    using assms(2) by (simp add: is_lt_def)
  have "eq_loop ab e (DInts cs) (int (length cs)) (cs ! 0) (int 1) =
     Inr (\<forall>ch\<in>set (drop 1 chs). node_type ch = node_type (chs ! 0)
            \<and> node_int ch = node_int (chs ! 0) \<and> payload ab ch = payload ab (chs ! 0))"
    using assms(5) by (intro eq_loop_children [OF assms(6,7)]) auto
  moreover have "chs ! 0 = hd chs"
    using len assms(5) by (cases chs) simp_all
  ultimately have "eq_loop ab e (DInts cs) (int (length cs)) (cs ! 0) 1 =
     Inr (\<forall>ch\<in>set (tl chs). node_type ch = node_type (hd chs)
            \<and> node_int ch = node_int (hd chs) \<and> payload ab ch = payload ab (hd chs))"
    by (simp add: drop_Suc)
  with evaluate_r_operator [OF assms(1) nl c0, of k ab] show ?thesis
    using assms(2,3,4) by (simp add: wbind_ok wlift_def)
qed

lemma payload_lit: "payload ab (lit t bs) = Inr bs"
  by (simp add: payload_def lit_def data_bytes_def rbind_def)

theorem eq_structural_witness:
  "pbg_evaluate_r (Suc 0) lp64 (eq_example (lit PBG_LT_NUMBER dbl_one) (lit PBG_LT_NUMBER dbl_one)) 0
     = ([Visit 0], Some (Inr True))
   \<and> pbg_evaluate_r (Suc 0) lp64 (eq_example (lit PBG_LT_NUMBER dbl_one) (lit PBG_LT_NUMBER dbl_two)) 0
     = ([Visit 0], Some (Inr False))
   \<and> pbg_evaluate_r (Suc 0) lp64 (eq_example (lit PBG_LT_NUMBER dbl_one) (lit PBG_LT_STRING dbl_one)) 0
     = ([Visit 0], Some (Inr False))"
proof -
  have g: "get_expr_node (eq_example a b) 0 = Inr (op_node PBG_OP_EQ [1, 2])" for a b
    by (simp add: eq_example_def get_expr_node_static)
  have m: "map (get_expr_node (eq_example a b)) [1, 2] = map Inr [a, b]" for a b
    by (simp add: eq_example_def get_expr_node_static)
  have r: "pbg_evaluate_r (Suc 0) lp64 (eq_example (lit t bs) (lit t' bs')) 0 =
     ([Visit 0], Some (Inr (t' = t \<and> length bs' = length bs \<and> bs' = bs)))" for t bs t' bs'
    using eq_structural [OF g _ _ _ _ m, of "lit t bs" "lit t' bs'" lp64 0]
    by (simp add: op_node_def payload_lit) (simp add: lit_def)
  show ?thesis
    by (simp add: r dbl_one_def dbl_two_def)
qed

lemma evaluate_r_neq:
  "pbg_evaluate_r (Suc 0) ab (neq_example a b) 0 =
     ([Visit 0], Some (neq_children ab (neq_example a b) (DInts [1, 2]) 1))"
proof -
  have g: "get_expr_node (neq_example a b) 0 = Inr (op_node PBG_OP_NEQ [1, 2])"
    by (simp add: neq_example_def get_expr_node_static)
  show ?thesis
    using evaluate_r_operator [OF g, of 1 0 ab]
    by (simp add: op_node_def is_lt_def child_ref_def wbind_ok wlift_def)
qed

text \<open>
  C3. On the NUMBER literals 1.0 and 2.0 a two-child NEQ node returns false, and so does
  a two-child EQ node: \<open>strncmp\<close> stops at the NUL byte both payloads start with, where the
  loop of EQ goes on to the bytes that differ.
\<close>

theorem neq_not_negation_of_eq:
  "pbg_evaluate_r (Suc 0) lp64 (neq_example (lit PBG_LT_NUMBER dbl_one) (lit PBG_LT_NUMBER dbl_two)) 0
     = ([Visit 0], Some (Inr False))
   \<and> pbg_evaluate_r (Suc 0) lp64 (eq_example (lit PBG_LT_NUMBER dbl_one) (lit PBG_LT_NUMBER dbl_two)) 0
     = ([Visit 0], Some (Inr False))"
proof -
  have m: "get_expr_node (neq_example a b) 1 = Inr a" "get_expr_node (neq_example a b) 2 = Inr b" for a b
    by (simp_all add: neq_example_def get_expr_node_static)
  have "neq_children lp64 (neq_example (lit PBG_LT_NUMBER dbl_one) (lit PBG_LT_NUMBER dbl_two))
          (DInts [1, 2]) 1 = Inr False"
    by (simp add: neq_children_def child_ref_def rbind_def m lit_def dbl_one_def dbl_two_def
        size_t_of_def strncmp_differ.simps data_byte_def data_bytes_def rd_def)
  moreover have "pbg_evaluate_r (Suc 0) lp64
      (eq_example (lit PBG_LT_NUMBER dbl_one) (lit PBG_LT_NUMBER dbl_two)) 0 = ([Visit 0], Some (Inr False))"
  proof -
    have g: "get_expr_node (eq_example a b) 0 = Inr (op_node PBG_OP_EQ [1, 2])" for a b
      by (simp add: eq_example_def get_expr_node_static)
    have e: "get_expr_node (eq_example a b) 1 = Inr a" "get_expr_node (eq_example a b) 2 = Inr b" for a b
      by (simp_all add: eq_example_def get_expr_node_static)
    have "eq_loop lp64 (eq_example (lit PBG_LT_NUMBER dbl_one) (lit PBG_LT_NUMBER dbl_two))
        (DInts [1, 2]) 2 1 1 = Inr False"
      by (simp add: eq_loop.simps [of _ _ _ _ _ 1] child_ref_def rbind_def e lit_def dbl_one_def dbl_two_def
          bytes_differ.simps data_byte_def data_bytes_def rd_def)
    then show ?thesis
      using evaluate_r_operator [OF g [of "lit PBG_LT_NUMBER dbl_one" "lit PBG_LT_NUMBER dbl_two"], of 1 0 lp64]
      by (simp add: op_node_def is_lt_def child_ref_def wbind_ok wlift_def)
  qed
  ultimately show ?thesis
    by (simp add: evaluate_r_neq)
qed

lemma cmp_children_bytes:
  assumes "child_ref d 1 = Inr c1"
    and "get_expr_node e c0 = Inr ch0" and "get_expr_node e c1 = Inr ch1"
    and "data_bytes ab (node_data ch0) = Inr b0" and "8 \<le> length b0"
    and "data_bytes ab (node_data ch1) = Inr b1" and "8 \<le> length b1"
  shows "cmp_children ab e d c0 rel = Inr (rel (take 8 b0) (take 8 b1))"
  using assms by (simp add: cmp_children_def rbind_def data_double_def)

text \<open>
  C7, as amended. A comparison node does not look at the kinds of its operands: when
  the payloads of both hold at least eight bytes it returns the comparison of the first
  eight bytes of each, read as two doubles, as an ordinary boolean.
\<close>

theorem comparison_unchecked:
  assumes "get_expr_node e idx = Inr nd"
    and "node_type nd \<in> {PBG_OP_LT, PBG_OP_GT, PBG_OP_LTE, PBG_OP_GTE}"
    and "child_ref (node_data nd) 0 = Inr c0" and "child_ref (node_data nd) 1 = Inr c1"
    and "get_expr_node e c0 = Inr ch0" and "get_expr_node e c1 = Inr ch1"
    and "data_bytes ab (node_data ch0) = Inr x" and "8 \<le> length x"
    and "data_bytes ab (node_data ch1) = Inr y" and "8 \<le> length y"
  shows "pbg_evaluate_r (Suc k) ab e idx =
     ([Visit idx],
      Some (Inr (if node_type nd = PBG_OP_LT then dbl_less ab (take 8 x) (take 8 y)
                 else if node_type nd = PBG_OP_GT then dbl_less ab (take 8 y) (take 8 x)
                 else if node_type nd = PBG_OP_LTE then dbl_le ab (take 8 x) (take 8 y)
                 else dbl_le ab (take 8 y) (take 8 x))))"
proof -
  have nl: "\<not> is_lt (node_type nd)"
    using assms(2) by (auto simp add: is_lt_def)
  note c = cmp_children_bytes [OF assms(4,5,6,7,8,9,10)]
  show ?thesis
    using assms(2) evaluate_r_operator [OF assms(1) nl assms(3), of k ab]
    by (auto simp add: wbind_ok wlift_def c)
qed

text \<open>
  C7 as stated fails: LT on two STRING literals returns false, not an error.
\<close>

theorem comparison_of_strings_is_boolean:
  "pbg_evaluate_r (Suc 0) lp64 lt_example 0 = ([Visit 0], Some (Inr False))"
proof -
  have g: "get_expr_node lt_example 0 = Inr (op_node PBG_OP_LT [1, 2])"
      "get_expr_node lt_example 1 = Inr (lit PBG_LT_STRING ''abcdefgh'')"
      "get_expr_node lt_example 2 = Inr (lit PBG_LT_STRING ''abcdefgh'')"
    by (simp_all add: lt_example_def get_expr_node_static)
  have "cmp_children lp64 lt_example (DInts [1, 2]) 1 (dbl_less lp64) = Inr False"
    by (simp add: cmp_children_def child_ref_def rbind_def g lit_def data_double_def data_bytes_def
        lp64_def ieee_less_def)
  then show ?thesis
    using evaluate_r_operator [OF g(1), of 1 0 lp64]
    by (simp add: op_node_def is_lt_def child_ref_def wbind_ok wlift_def)
qed

theorem comparison_unchecked_witness:
  "pbg_evaluate_r (Suc 0) lp64 lt_example 0 =
     ([Visit 0], Some (Inr (dbl_less lp64 ''abcdefgh'' ''abcdefgh'')))"
proof -
  have g: "get_expr_node lt_example 0 = Inr (op_node PBG_OP_LT [1, 2])"
      "get_expr_node lt_example 1 = Inr (lit PBG_LT_STRING ''abcdefgh'')"
      "get_expr_node lt_example 2 = Inr (lit PBG_LT_STRING ''abcdefgh'')"
    by (simp_all add: lt_example_def get_expr_node_static)
  show ?thesis
    using comparison_unchecked [OF g(1) _ _ _ g(2) g(3), where x = "''abcdefgh''" and y = "''abcdefgh''" and ab = lp64 and k = 0]
    by (simp add: op_node_def child_ref_def lit_def data_bytes_def)
qed

lemma resolve_keys_all:
  assumes "e_dynamic e = map Some keys" and "e_dynamicsz e = int (length keys)" and "i \<le> length keys"
  shows "resolve_keys dict e (int i) =
     (map key_lookup (drop i keys), Some (Inr (map (\<lambda>nd. Some (resolved dict nd)) (drop i keys))))"
  using assms(3)
proof (induction "length keys - i" arbitrary: i)
  case 0
  then have "i = length keys" by simp
  then show ?case
    using assms(2) by (subst resolve_keys.simps) (simp add: wret_def)
next
  case (Suc n)
  then have lt: "i < length keys" by simp
  have sl: "slot (e_dynamic e) (int i) = Inr (keys ! i)"
    using lt assms(1) by (simp add: slot_def)
  have dr: "drop i keys = keys ! i # drop (Suc i) keys"
    using lt by (simp add: Cons_nth_drop_Suc)
  have ih: "resolve_keys dict e (int (Suc i)) =
     (map key_lookup (drop (Suc i) keys),
      Some (Inr (map (\<lambda>nd. Some (resolved dict nd)) (drop (Suc i) keys))))"
    using Suc.hyps(2) lt by (intro Suc.hyps(1)) simp_all
  have s: "int (Suc i) = int i + 1" by simp
  show ?case
    using lt sl ih s assms(2)
    by (subst resolve_keys.simps)
       (simp add: wbind_wlift_ok wbind_ok wret_def dr key_lookup_def resolved_def del: of_nat_Suc)
qed

lemma wbind_visits:
  "list_all is_visit (fst m) \<Longrightarrow> (\<And>x. list_all is_visit (fst (f x))) \<Longrightarrow>
   list_all is_visit (fst (wbind m f))"
  by (cases m) (auto simp add: wbind_def split: option.splits sum.splits prod.splits, metis fst_conv)

lemma and_loop_visits:
  "(\<And>c. list_all is_visit (fst (ev c))) \<Longrightarrow> list_all is_visit (fst (and_loop ev d sz i))"
proof (induction ev d sz i rule: and_loop.induct)
  case (1 ev d sz i)
  show ?case
    by (subst and_loop.simps)
       (auto simp add: wret_def wlift_def "1.prems" intro!: wbind_visits "1.IH")
qed

lemma or_loop_visits:
  "(\<And>c. list_all is_visit (fst (ev c))) \<Longrightarrow> list_all is_visit (fst (or_loop ev d sz i))"
proof (induction ev d sz i rule: or_loop.induct)
  case (1 ev d sz i)
  show ?case
    by (subst or_loop.simps)
       (auto simp add: wret_def wlift_def "1.prems" intro!: wbind_visits "1.IH")
qed

lemma evaluate_r_visits: "list_all is_visit (fst (pbg_evaluate_r k ab e idx))"
proof (induction k arbitrary: idx)
  case 0
  show ?case by (simp add: pbg_evaluate_r.simps)
next
  case (Suc k)
  show ?case
    by (subst pbg_evaluate_r.simps)
       (auto simp add: wret_def wlift_def is_visit_def Suc
          intro!: wbind_visits and_loop_visits or_loop_visits split: pbg_node_type.splits)
qed

lemma evaluate_after_resolution:
  assumes "e_dynamic e = map Some keys" and "e_dynamicsz e = int (length keys)"
  shows "pbg_evaluate fuel ab e dict =
     (map key_lookup keys
        @ fst (pbg_evaluate_r fuel ab (e\<lparr>e_dynamic := map (\<lambda>nd. Some (resolved dict nd)) keys\<rparr>) 0),
      snd (pbg_evaluate_r fuel ab (e\<lparr>e_dynamic := map (\<lambda>nd. Some (resolved dict nd)) keys\<rparr>) 0))"
  using resolve_keys_all [OF assms, of 0 dict]
  by (simp add: pbg_evaluate_def wbind_ok)

text \<open>
  C6. \<open>pbg_evaluate\<close> calls the dictionary callback once for each key of the dynamic
  arena, in arena order, before the walk: its events are these calls followed by the
  events of the walk over the resolved arena, which are visits only. A key the walk never
  visits is looked up all the same.
\<close>

theorem keys_resolved_before_walk:
  assumes "e_dynamic e = map Some keys" and "e_dynamicsz e = int (length keys)"
    and "w = pbg_evaluate_r fuel ab (e\<lparr>e_dynamic := map (\<lambda>nd. Some (resolved dict nd)) keys\<rparr>) 0"
  shows "pbg_evaluate fuel ab e dict = (map key_lookup keys @ fst w, snd w)
           \<and> list_all is_visit (fst w)"
  using evaluate_after_resolution [OF assms(1,2), of fuel ab dict] assms(3)
  by (simp add: evaluate_r_visits)

theorem keys_resolved_before_walk_witness:
  "pbg_evaluate (Suc (Suc 0)) lp64 key_example (\<lambda>d n. bool_lit PBG_LT_TRUE) =
     ([Lookup (DBytes ''k'') 1, Visit 0, Visit 1], Some (Inr False))"
proof -
  let ?e = "key_example\<lparr>e_dynamic := map (\<lambda>nd. Some (resolved (\<lambda>d n. bool_lit PBG_LT_TRUE) nd)) [lit PBG_LT_KEY ''k'']\<rparr>"
  have e: "?e = expr_of [op_node PBG_OP_AND [1, - 1], bool_lit PBG_LT_FALSE] [bool_lit PBG_LT_TRUE]"
    by (simp add: key_example_def expr_of_def resolved_def)
  have g: "get_expr_node ?e 0 = Inr (op_node PBG_OP_AND [1, - 1])"
      "get_expr_node ?e 1 = Inr (bool_lit PBG_LT_FALSE)"
    unfolding e by (simp_all add: get_expr_node_static)
  have w: "pbg_evaluate_r (Suc (Suc 0)) lp64 ?e 0 = ([Visit 0, Visit 1], Some (Inr False))"
    using evaluate_r_operator [OF g(1), of 1 "Suc 0" lp64] evaluate_r_literal [OF g(2), of 0 lp64]
    by (simp add: op_node_def is_lt_def child_ref_def wbind_ok and_loop.simps [of _ _ _ 0]
        wbind_wlift_ok wret_def bool_lit_def)
  show ?thesis
    using keys_resolved_before_walk [of key_example "[lit PBG_LT_KEY ''k'']" _ "Suc (Suc 0)" lp64
        "\<lambda>d n. bool_lit PBG_LT_TRUE", OF _ _ refl] w
    by (simp add: key_example_def expr_of_def key_lookup_def lit_def)
qed

section \<open>Properties of the recognizers\<close>

lemma isstring_first_and_last:
  "1 \<le> n \<Longrightarrow> n \<le> int (length s) \<Longrightarrow>
   pbg_isstring s n = Inr (s ! 0 = CHR 0x27 \<and> s ! nat (n - 1) = CHR 0x27)"
  by (auto simp add: pbg_isstring_def rbind_def rd_def)

text \<open>
  C9. The range holding the single byte \<open>'\<close> is recognized as a string: the first and
  the last byte are the same byte, and the length is not looked at.
\<close>

theorem isstring_single_quote: "pbg_isstring [CHR 0x27] 1 = Inr True"
  by (simp add: pbg_isstring_def rbind_def rd_def)

text \<open>
  C10. On the two-byte range \<open>12\<close>, \<open>pbg_isnumber\<close> reads the byte after the range: with
  nothing there the read is out of bounds, and with something there the verdict follows
  that byte.
\<close>

theorem isnumber_reads_past_range:
  "pbg_isnumber ''12'' 2 = Inl OutOfBounds
   \<and> pbg_isnumber ''12,'' 2 = Inr True
   \<and> pbg_isnumber ''12.x'' 2 = Inr False"
  by (simp add: pbg_isnumber_def stage_def isnumber_sign_def isnumber_int_def isnumber_frac_def
      isnumber_exp_def rbind_def rd_def is_a_digit_def skip_digits.simps)

section \<open>Properties of the parser\<close>

lemmas scan_simps = pbg_scan_def count_loop.simps in_string_next_def rbind_def rd_def pbind_def
  store_def scan_loop.simps scan_closing_def scan_field_end_def scan_field_start_def cell_def
  empty_expr_def Let_def eval_nat_numeral

lemmas parse_simps = pbg_parse_top_def pbg_parse_def pbg_parse_r.simps parse_children.simps
  pbg_toop_def ptr_add_def parse_literal_def pbg_iskey_def pbg_isdate_def pbg_isnumber_def
  pbg_isstring_def pbg_istrue_def pbg_isfalse_def new_static_def new_dynamic_def copy_text_def
  strncpy_def stage_def isnumber_sign_def isnumber_int_def isnumber_frac_def isnumber_exp_def
  is_a_digit_def skip_digits.simps

lemma scan_bare_key:
  "pbg_scan junk ''([k])'' 5 = Inr (\<lparr>sc_fields = [Some 1, Some (- 1)], sc_lengths = [Some 3],
    sc_closings = [Some 4], sc_c = 0, sc_f = 1, sc_open = False, sc_instring = False\<rparr>,
    empty_expr 0 1)"
  by (simp add: scan_simps)

lemma parse_bare_key:
  "pbg_parse_top junk atof szd ''([k])'' 5 =
     Some (Inr (bare_key_expr, \<lparr>ret_arg = \<lparr>arg_field = 1, arg_closing = 0\<rparr>, ret_nodeidx = - 1\<rparr>))"
  by (simp add: pbg_parse_top_def scan_bare_key pbind_def)
     (simp add: parse_simps rbind_def rd_def pbind_def store_def cell_def empty_expr_def
        bare_key_expr_def lit_def eval_nat_numeral)

lemma parse_bare_key_unparenthesised:
  "pbg_parse_top (Some 3) atof szd ''[k]'' 3 =
     Some (Inr (bare_key_expr, \<lparr>ret_arg = \<lparr>arg_field = 1, arg_closing = 0\<rparr>, ret_nodeidx = - 1\<rparr>))"
  by (simp add: pbg_parse_top_def scan_simps)
     (simp add: parse_simps rbind_def rd_def pbind_def store_def cell_def empty_expr_def
        bare_key_expr_def lit_def eval_nat_numeral)

lemma evaluate_bare_key:
  "snd (pbg_evaluate (Suc fuel) ab bare_key_expr dict) = Some (Inl OutOfBounds)"
  by (simp add: pbg_evaluate_def resolve_keys.simps bare_key_expr_def slot_def wbind_def wlift_def
      wret_def pbg_evaluate_r.simps get_expr_node_def split: prod.splits)

text \<open>
  C5. For the single key \<open>([k])\<close>, and for \<open>[k]\<close> when the never-written \<open>lengths[0]\<close>
  happens to hold 3, the parser returns the root reference \<open>-1\<close>: the key is slot 0 of the
  dynamic arena and the static arena has no slot at all, so that the evaluator, which
  starts at \<open>e->_static\<close>, reads outside the arena.
\<close>

theorem bare_key_root_is_dynamic:
  "pbg_parse_top junk atof szd ''([k])'' 5 =
     Some (Inr (bare_key_expr, \<lparr>ret_arg = \<lparr>arg_field = 1, arg_closing = 0\<rparr>, ret_nodeidx = - 1\<rparr>))
   \<and> pbg_parse_top (Some 3) atof szd ''[k]'' 3 =
     Some (Inr (bare_key_expr, \<lparr>ret_arg = \<lparr>arg_field = 1, arg_closing = 0\<rparr>, ret_nodeidx = - 1\<rparr>))
   \<and> e_static bare_key_expr = []
   \<and> snd (pbg_evaluate (Suc fuel) ab bare_key_expr dict) = Some (Inl OutOfBounds)"
  by (simp add: parse_bare_key parse_bare_key_unparenthesised evaluate_bare_key)
     (simp add: bare_key_expr_def)

text \<open>
  C8. On the bare literal \<open>TRUE\<close> the parser reads \<open>lengths[0]\<close>, which the scan never
  wrote (the scan sets a length at a comma or a closing only): with a zero there, no node
  is created. On \<open>(?,[a[b])\<close> the scan counts two keys for one key field, sizes the static
  arena at 0 and the parser writes the operator's node outside it.
\<close>

theorem parse_counts_fail:
  "pbg_parse None atof szd ''TRUE'' 4 = Some (Inl Uninitialised)
   \<and> pbg_parse (Some 0) atof szd ''TRUE'' 4 = Some (Inl InvalidLiteral)
   \<and> pbg_parse junk atof szd ''(?,[a[b])'' 9 = Some (Inl OutOfBounds)"
proof (intro conjI)
  show "pbg_parse None atof szd ''TRUE'' 4 = Some (Inl Uninitialised)"
    by (simp add: pbg_parse_def pbg_parse_top_def scan_simps)
       (simp add: parse_simps rbind_def rd_def pbind_def store_def cell_def empty_expr_def
          eval_nat_numeral)
  show "pbg_parse (Some 0) atof szd ''TRUE'' 4 = Some (Inl InvalidLiteral)"
    by (simp add: pbg_parse_def pbg_parse_top_def scan_simps)
       (simp add: parse_simps rbind_def rd_def pbind_def store_def cell_def empty_expr_def
          eval_nat_numeral)
  show "pbg_parse junk atof szd ''(?,[a[b])'' 9 = Some (Inl OutOfBounds)"
    by (simp add: pbg_parse_def pbg_parse_top_def scan_simps)
       (simp add: parse_simps rbind_def rd_def pbind_def store_def cell_def empty_expr_def
          eval_nat_numeral)
qed

section \<open>Properties of the renderer\<close>

lemma long_key_text_nth:
  "4 \<le> i \<Longrightarrow> i < 1004 \<Longrightarrow> long_key_text ! i = CHR ''k''"
  by (simp add: long_key_text_def long_key_def nth_append)

lemma long_key_text_length: "length long_key_text = 1006"
  by (simp add: long_key_text_def long_key_def)

lemma long_key_text_ends:
  "long_key_text ! 0 = CHR ''(''" "long_key_text ! Suc 0 = CHR ''?''" "long_key_text ! 2 = CHR '',''"
  "long_key_text ! 3 = CHR ''[''" "long_key_text ! 1004 = CHR '']''" "long_key_text ! 1005 = CHR '')''"
  by (simp_all add: long_key_text_def long_key_def nth_append eval_nat_numeral)

lemma count_loop_plain:
  assumes "\<forall>k. i \<le> k \<and> k < j \<longrightarrow> s ! k = CHR ''k''" and "i \<le> j" and "j \<le> length s" and "int j \<le> n"
  shows "count_loop s n (int i) False a b c = count_loop s n (int j) False a b c"
  using assms(1,2)
proof (induction "j - i" arbitrary: i)
  case 0
  then show ?case by simp
next
  case (Suc m)
  then have lt: "i < j" by simp
  have r: "rd s (int i) = Inr (CHR ''k'')"
    using lt assms(3) Suc.prems(1) by (simp add: rd_def)
  have ih: "count_loop s n (int (Suc i)) False a b c = count_loop s n (int j) False a b c"
    using Suc.hyps(2) lt Suc.prems(1) by (intro Suc.hyps(1)) simp_all
  have s: "int (Suc i) = int i + 1" by simp
  show ?case
    using lt assms(4) ih
    by (subst count_loop.simps) (simp add: in_string_next_def rbind_def r s del: of_nat_Suc)
qed

lemma scan_loop_plain:
  assumes "\<forall>k. i \<le> k \<and> k < j \<longrightarrow> s ! k = CHR ''k''" and "i \<le> j" and "j \<le> length s" and "int j \<le> n"
    and "\<not> sc_instring st"
  shows "scan_loop s n (int i) st = scan_loop s n (int j) st"
  using assms(1,2)
proof (induction "j - i" arbitrary: i)
  case 0
  then show ?case by simp
next
  case (Suc m)
  then have lt: "i < j" by simp
  have r: "rd s (int i) = Inr (CHR ''k'')"
    using lt assms(3) Suc.prems(1) by (simp add: rd_def)
  have ih: "scan_loop s n (int (Suc i)) st = scan_loop s n (int j) st"
    using Suc.hyps(2) lt Suc.prems(1) by (intro Suc.hyps(1)) simp_all
  have s: "int (Suc i) = int i + 1" by simp
  have st: "st\<lparr>sc_instring := False\<rparr> = st"
    using assms(5) by simp
  show ?case
    using lt assms(4,5) ih
    by (subst scan_loop.simps)
       (simp add: in_string_next_def rbind_def r s st scan_closing_def scan_field_end_def
          scan_field_start_def del: of_nat_Suc)
qed

lemma put_data_overflow:
  assumes "n \<le> length bs" and "j \<le> n" and "length out \<le> 1000" and "1000 < length out + (n - j)"
  shows "put_data (DBytes bs) (int n) (int j) out = Inl BufferOverflow"
  using assms(2,3,4)
proof (induction "n - j" arbitrary: j out)
  case 0
  then show ?case by simp
next
  case (Suc m)
  then have lt: "j < n" by simp
  have r: "rd bs (int j) = Inr (bs ! j)"
    using lt assms(1) by (simp add: rd_def)
  have s: "int (Suc j) = int j + 1" by simp
  show ?case
  proof (cases "length out < 1000")
    case False
    then show ?thesis
      using lt r by (subst put_data.simps) (simp add: rbind_def put_def)
  next
    case True
    have "put_data (DBytes bs) (int n) (int (Suc j)) (out @ [bs ! j]) = Inl BufferOverflow"
      using Suc.hyps(2) lt True Suc.prems by (intro Suc.hyps(1)) simp_all
    then show ?thesis
      using lt r True by (subst put_data.simps) (simp add: rbind_def put_def s del: of_nat_Suc)
  qed
qed

lemma rd_long_key_text:
  "rd long_key_text 0 = Inr (CHR ''('')" "rd long_key_text 1 = Inr (CHR ''?'')"
  "rd long_key_text 2 = Inr (CHR '','')" "rd long_key_text 3 = Inr (CHR ''['')"
  "rd long_key_text 1004 = Inr (CHR '']'')" "rd long_key_text 1005 = Inr (CHR '')'')"
  by (simp_all add: rd_def long_key_text_length long_key_text_ends)

lemma rd_drop: "0 \<le> i \<Longrightarrow> rd (drop k s) i = rd s (i + int k)"
  by (auto simp add: rd_def nat_add_distrib add.commute)

lemma count_long_key_run:
  "count_loop long_key_text 1006 4 False a b c = count_loop long_key_text 1006 1004 False a b c"
  using count_loop_plain [of 4 1004 long_key_text 1006 a b c]
  by (simp add: long_key_text_nth long_key_text_length)

lemma count_long_key_text: "count_loop long_key_text 1006 0 False 0 0 0 = Inr (1, 1, 1)"
  by (simp add: count_loop.simps [of _ _ 0] count_loop.simps [of _ _ 1] count_loop.simps [of _ _ 2]
      count_loop.simps [of _ _ 3] count_long_key_run count_loop.simps [of _ _ 1004]
      count_loop.simps [of _ _ 1005] count_loop.simps [of _ _ 1006]
      in_string_next_def rbind_def rd_long_key_text)

lemma scan_long_key_run:
  "\<not> sc_instring st \<Longrightarrow>
   scan_loop long_key_text 1006 4 st = scan_loop long_key_text 1006 1004 st"
  using scan_loop_plain [of 4 1004 long_key_text 1006 st]
  by (simp add: long_key_text_nth long_key_text_length)

lemma scan_long_key_text:
  "pbg_scan junk long_key_text 1006 =
     Inr (\<lparr>sc_fields = [Some 1, Some 3, Some (- 1)], sc_lengths = [Some 1, Some 1002],
           sc_closings = [Some 1005], sc_c = 0, sc_f = 2, sc_open = False, sc_instring = False\<rparr>,
          \<lparr>e_static = [None], e_dynamic = [None], e_staticsz = 0, e_dynamicsz = 0\<rparr>)"
proof -
  have r3: "replicate 3 junk = [junk, junk, junk]" "replicate 2 junk = [junk, junk]"
    by (simp_all add: eval_nat_numeral)
  show ?thesis
    by (simp add: pbg_scan_def count_long_key_text rbind_def rd_long_key_text store_def r3
        scan_loop.simps [of _ _ 1] scan_loop.simps [of _ _ 2] scan_loop.simps [of _ _ 3]
        scan_long_key_run scan_loop.simps [of _ _ 1004] scan_loop.simps [of _ _ 1005]
        scan_loop.simps [of _ _ 1006] in_string_next_def scan_closing_def scan_field_end_def
        scan_field_start_def cell_def empty_expr_def)
qed

lemma strncpy_long_key: "strncpy (drop 4 long_key_text) 1000 = Inr long_key"
  by (simp add: strncpy_def long_key_text_def long_key_def Let_def takeWhile_replicate)

lemma lit_long:
  "parse_literal (long_cx atof szd) e (drop 3 long_key_text) 1002 =
     new_dynamic e \<lparr>node_type = PBG_LT_KEY, node_int = 1000, node_data = DBytes long_key\<rparr>"
  by (simp add: parse_literal_def pbg_iskey_def rd_drop rd_long_key_text rbind_def copy_text_def
      ptr_add_def long_key_text_length strncpy_long_key)

lemma cells_long:
  "cell (px_fields (long_cx atof szd)) 0 = Inr 1" "cell (px_fields (long_cx atof szd)) 1 = Inr 3"
  "cell (px_fields (long_cx atof szd)) 2 = Inr (- 1)"
  "cell (px_lengths (long_cx atof szd)) 0 = Inr 1" "cell (px_lengths (long_cx atof szd)) 1 = Inr 1002"
  "cell (px_closings (long_cx atof szd)) 0 = Inr 1005"
  "px_str (long_cx atof szd) = long_key_text"
  by (simp_all add: long_cx_def cell_def)

lemma children_done_long:
  "parse_children (Suc k) (long_cx atof szd) e \<lparr>arg_field = 2, arg_closing = 0\<rparr> cs =
     Some (Inr (e, \<lparr>arg_field = 2, arg_closing = 0\<rparr>, cs))"
  by (subst parse_children.simps) (simp add: cells_long pbind_def)

lemma key_field_long:
  "pbg_parse_r (Suc k) (long_cx atof szd)
      \<lparr>e_static = st, e_dynamic = [None], e_staticsz = 1, e_dynamicsz = 0\<rparr>
      \<lparr>arg_field = 1, arg_closing = 0\<rparr> =
     Some (Inr (\<lparr>e_static = st, e_dynamic = [Some (lit PBG_LT_KEY long_key)],
                  e_staticsz = 1, e_dynamicsz = 1\<rparr>,
                \<lparr>ret_arg = \<lparr>arg_field = 2, arg_closing = 0\<rparr>, ret_nodeidx = - 1\<rparr>))"
proof -
  have len: "int (length long_key) = 1000"
    by (simp add: long_key_def)
  show ?thesis
    by (subst pbg_parse_r.simps)
       (simp add: cells_long pbind_def ptr_add_def long_key_text_length pbg_toop_def lit_long
          new_dynamic_def store_def rbind_def lit_def len)
qed

lemma children_long:
  "parse_children (Suc (Suc k)) (long_cx atof szd)
      \<lparr>e_static = st, e_dynamic = [None], e_staticsz = 1, e_dynamicsz = 0\<rparr>
      \<lparr>arg_field = 1, arg_closing = 0\<rparr> [] =
     Some (Inr (\<lparr>e_static = st, e_dynamic = [Some (lit PBG_LT_KEY long_key)],
                  e_staticsz = 1, e_dynamicsz = 1\<rparr>,
                \<lparr>arg_field = 2, arg_closing = 0\<rparr>, [- 1]))"
  by (subst parse_children.simps) (simp add: cells_long pbind_def key_field_long children_done_long)

lemma root_long:
  "pbg_parse_r (Suc (Suc (Suc k))) (long_cx atof szd)
      \<lparr>e_static = [None], e_dynamic = [None], e_staticsz = 0, e_dynamicsz = 0\<rparr>
      \<lparr>arg_field = 0, arg_closing = 0\<rparr> =
     Some (Inr (long_key_expr, \<lparr>ret_arg = \<lparr>arg_field = 2, arg_closing = 1\<rparr>, ret_nodeidx = 0\<rparr>))"
  by (subst pbg_parse_r.simps)
     (simp add: cells_long pbind_def ptr_add_def long_key_text_length pbg_toop_def rd_drop
        rd_long_key_text rbind_def new_static_def store_def children_long
        long_key_expr_def expr_of_def op_node_def)

lemma parse_long_key_text:
  "pbg_parse junk atof szd long_key_text 1006 = Some (Inr long_key_expr)"
proof -
  have "(7::nat) = Suc (Suc (Suc 4))" by simp
  then show ?thesis
    using root_long [of 4 atof szd]
    by (simp add: pbg_parse_def pbg_parse_top_def scan_long_key_text pbind_def long_cx_def)
qed

lemma gets_long_key:
  "pbg_gets (Suc (Suc fuel)) fmt long_key_expr = Some (Inl BufferOverflow)"
proof -
  have g: "get_expr_node long_key_expr 0 = Inr (op_node PBG_OP_EXST [- 1])"
      "get_expr_node long_key_expr (- 1) = Inr (lit PBG_LT_KEY long_key)"
    by (simp_all add: long_key_expr_def get_expr_node_static get_expr_node_dynamic)
  have o: "put_data (DBytes long_key) 1000 0 ''(?,['' = Inl BufferOverflow"
    using put_data_overflow [of 1000 long_key 0 "''(?,[''"] by (simp add: long_key_def)
  have len: "int (length long_key) = 1000"
    by (simp add: long_key_def)
  have "gets_literal fmt (lit PBG_LT_KEY long_key) ''(?,'' = Inl BufferOverflow"
    by (simp add: gets_literal_def lit_def put_def rbind_def len o)
  then have k: "pbg_gets_r (Suc fuel) fmt long_key_expr (- 1) ''(?,'' = Some (Inl BufferOverflow)"
    by (subst pbg_gets_r.simps) (simp add: g pbind_def lit_def is_lt_def)
  have "pbg_gets_r (Suc (Suc fuel)) fmt long_key_expr 0 [] = Some (Inl BufferOverflow)"
    by (subst pbg_gets_r.simps)
       (simp add: g pbind_def op_node_def is_lt_def put_def op_symbol_def rbind_def
          gets_children.simps [of _ _ _ 0] child_ref_def k)
  then show ?thesis
    by (simp add: pbg_gets_def pbind_def)
qed

text \<open>
  C4. The text \<open>(?,[k...k])\<close> with a key of 1000 bytes is parsed into the expression of
  one EXST node over one KEY node. Rendering that expression writes past the 1000 bytes of
  the buffer: there is no rendering to parse back.
\<close>

theorem render_overflows_on_parsed_expression:
  "pbg_parse junk atof szd long_key_text 1006 = Some (Inr long_key_expr)
   \<and> pbg_gets (Suc (Suc fuel)) fmt long_key_expr = Some (Inl BufferOverflow)"
  by (simp add: parse_long_key_text gets_long_key)

section \<open>The parser and the walker return\<close>

lemma cell_range: "cell a i = Inr v \<Longrightarrow> 0 \<le> i \<and> i < int (length a)"
  by (simp add: cell_def split: if_splits)

lemma parse_progress:
  "(\<forall>e arg e' ret. pbg_parse_r k cx e arg = Some (Inr (e', ret)) \<longrightarrow>
       arg_field arg < arg_field (ret_arg ret)
       \<and> 0 \<le> arg_field arg \<and> arg_field arg < int (length (px_fields cx)))
   \<and> (\<forall>e arg cs e' arg' cs'. parse_children k cx e arg cs = Some (Inr (e', arg', cs')) \<longrightarrow>
       arg_field arg \<le> arg_field arg')"
proof (induction k)
  case 0
  show ?case by (simp add: pbg_parse_r.simps parse_children.simps)
next
  case (Suc k)
  have r: "arg_field arg < arg_field (ret_arg ret)
       \<and> 0 \<le> arg_field arg \<and> arg_field arg < int (length (px_fields cx))"
    if "pbg_parse_r (Suc k) cx e arg = Some (Inr (e', ret))" for e arg e' ret
  proof -
    from that obtain start where s: "cell (px_fields cx) (arg_field arg) = Inr start"
      by (auto simp add: pbg_parse_r.simps pbind_def split: sum.splits)
    note rg = cell_range [OF s]
    from that Suc show ?thesis
      using rg
      by (auto simp add: pbg_parse_r.simps pbind_def split: sum.splits if_splits option.splits
          prod.splits)
         fastforce+
  qed
  have c: "arg_field arg \<le> arg_field arg'"
    if "parse_children (Suc k) cx e arg cs = Some (Inr (e', arg', cs'))" for e arg cs e' arg' cs'
    using that Suc
    by (auto simp add: parse_children.simps pbind_def split: sum.splits if_splits option.splits
        prod.splits)
       fastforce+
  show ?case using r c by blast
qed

lemma parse_enough_fuel:
  "(\<forall>e arg. 0 < k \<and> 2 * fields_left cx arg \<le> k \<longrightarrow> pbg_parse_r k cx e arg \<noteq> None)
   \<and> (\<forall>e arg cs. 2 * fields_left cx arg < k \<longrightarrow> parse_children k cx e arg cs \<noteq> None)"
proof (induction k)
  case 0
  show ?case by simp
next
  case (Suc k)
  have r: "pbg_parse_r (Suc k) cx e arg \<noteq> None" if b: "2 * fields_left cx arg \<le> Suc k" for e arg
  proof (cases "cell (px_fields cx) (arg_field arg)")
    case (Inl err)
    then show ?thesis by (simp add: pbg_parse_r.simps pbind_def)
  next
    case (Inr start)
    note rg = cell_range [OF Inr]
    have "2 * fields_left cx (arg\<lparr>arg_field := arg_field arg + 1\<rparr>) < k"
      using rg b by (simp add: fields_left_def) linarith
    then have "parse_children k cx e1 (arg\<lparr>arg_field := arg_field arg + 1\<rparr>) [] \<noteq> None" for e1
      using Suc by blast
    then show ?thesis
      by (auto simp add: pbg_parse_r.simps pbind_def Inr split: sum.splits option.splits prod.splits)
         (metis option.distinct(1))+
  qed
  have c: "parse_children (Suc k) cx e arg cs \<noteq> None" if b: "2 * fields_left cx arg < Suc k" for e arg cs
  proof (cases "cell (px_fields cx) (arg_field arg)")
    case (Inl err)
    then show ?thesis by (simp add: parse_children.simps pbind_def)
  next
    case (Inr start)
    note rg = cell_range [OF Inr]
    have pos: "0 < k" "2 * fields_left cx arg \<le> k"
      using rg b by (simp_all add: fields_left_def) linarith
    then have p: "pbg_parse_r k cx e arg \<noteq> None"
      using Suc by blast
    have n: "parse_children k cx e1 (ret_arg ret) cs1 \<noteq> None"
      if "pbg_parse_r k cx e arg = Some (Inr (e1, ret))" for e1 ret cs1
    proof -
      from parse_progress [of k cx] that have "arg_field arg < arg_field (ret_arg ret)"
        by blast
      then have "2 * fields_left cx (ret_arg ret) < k"
        using pos(2) rg by (simp add: fields_left_def) linarith
      then show ?thesis using Suc by blast
    qed
    show ?thesis
      using p n
      by (auto simp add: parse_children.simps pbind_def Inr split: sum.splits option.splits prod.splits)
  qed
  show ?case using r c by blast
qed

lemma parse_top_returns: "pbg_parse_top junk atof szd s n \<noteq> None"
proof (cases "pbg_scan junk s n")
  case (Inl err)
  then show ?thesis by (simp add: pbg_parse_top_def pbind_def)
next
  case (Inr r)
  obtain st e where r: "r = (st, e)" by (cases r)
  let ?cx = "\<lparr>px_atof = atof, px_sizeof_date = szd, px_str = s,
          px_fields = sc_fields st, px_lengths = sc_lengths st, px_closings = sc_closings st\<rparr>"
  have "2 * fields_left ?cx \<lparr>arg_field = 0, arg_closing = 0\<rparr> \<le> 2 * length (sc_fields st) + 1"
    by (simp add: fields_left_def)
  with parse_enough_fuel [of "2 * length (sc_fields st) + 1" ?cx]
  have "pbg_parse_r (2 * length (sc_fields st) + 1) ?cx e \<lparr>arg_field = 0, arg_closing = 0\<rparr> \<noteq> None"
    by simp
  then show ?thesis
    by (simp add: pbg_parse_top_def pbind_def Inr r)
qed

lemma parse_returns: "pbg_parse junk atof szd s n \<noteq> None"
  using parse_top_returns [of junk atof szd s n]
  by (auto simp add: pbg_parse_def pbind_def split: option.splits sum.splits)

lemma returns_simps: "returns (t, Some r)" "returns (wret x)" "returns (wlift r)"
  by (simp_all add: returns_def wret_def wlift_def)

lemma wbind_returns:
  "returns m \<Longrightarrow> (\<And>x. returns (f x)) \<Longrightarrow> returns (wbind m f)"
proof -
  assume m: "returns m" and f: "\<And>x. returns (f x)"
  obtain t r where mr: "m = (t, Some r)"
    using m by (cases m) (auto simp add: returns_def)
  show ?thesis
  proof (cases r)
    case (Inl err)
    then show ?thesis by (simp add: mr wbind_def returns_def)
  next
    case (Inr x)
    then show ?thesis using f [of x] by (simp add: mr wbind_ok returns_def)
  qed
qed

lemma wbind_lift_returns:
  "(\<And>x. r = Inr x \<Longrightarrow> returns (f x)) \<Longrightarrow> returns (wbind (wlift r) f)"
  by (cases r) (auto simp add: returns_def wbind_def wlift_def split: option.splits sum.splits prod.splits)

lemma child_ref_member: "child_ref (DInts cs) i = Inr c \<Longrightarrow> c \<in> set cs"
  by (auto simp add: child_ref_def split: if_splits)

lemma child_ref_ints_only: "child_ref d i = Inr c \<Longrightarrow> \<exists>cs. d = DInts cs"
  by (auto simp add: child_ref_def split: pbg_data.splits)

lemma and_loop_returns:
  "(\<And>c. c \<in> set cs \<Longrightarrow> returns (ev c)) \<Longrightarrow> returns (and_loop ev (DInts cs) sz i)"
proof (induction ev "DInts cs" sz i rule: and_loop.induct)
  case (1 ev sz i)
  show ?case
  proof (cases "i < sz")
    case False
    then show ?thesis by (subst and_loop.simps) (simp add: returns_simps)
  next
    case True
    have "returns (wbind (ev c) (\<lambda>b. if \<not> b then wret False else and_loop ev (DInts cs) sz (i + 1)))"
      if "child_ref (DInts cs) i = Inr c" for c
    proof (rule wbind_returns)
      show "returns (ev c)" using that child_ref_member "1.prems" by blast
      show "returns (if \<not> b then wret False else and_loop ev (DInts cs) sz (i + 1))" for b
        using "1.hyps" [of b] True "1.prems" by (cases b) (simp_all add: returns_simps)
    qed
    then show ?thesis
      using True by (subst and_loop.simps) (simp add: wbind_lift_returns)
  qed
qed

lemma or_loop_returns:
  "(\<And>c. c \<in> set cs \<Longrightarrow> returns (ev c)) \<Longrightarrow> returns (or_loop ev (DInts cs) sz i)"
proof (induction ev "DInts cs" sz i rule: or_loop.induct)
  case (1 ev sz i)
  show ?case
  proof (cases "i < sz")
    case False
    then show ?thesis by (subst or_loop.simps) (simp add: returns_simps)
  next
    case True
    have "returns (wbind (ev c) (\<lambda>b. if b then wret True else or_loop ev (DInts cs) sz (i + 1)))"
      if "child_ref (DInts cs) i = Inr c" for c
    proof (rule wbind_returns)
      show "returns (ev c)" using that child_ref_member "1.prems" by blast
      show "returns (if b then wret True else or_loop ev (DInts cs) sz (i + 1))" for b
        using "1.hyps" [of b] True "1.prems" by (cases b) (simp_all add: returns_simps)
    qed
    then show ?thesis
      using True by (subst or_loop.simps) (simp add: wbind_lift_returns)
  qed
qed

lemma evaluate_r_returns:
  assumes "forward_refs e"
  shows "(idx < 0 \<and> 0 < k) \<or> (0 \<le> idx \<and> nat (int (length (e_static e)) - idx) < k) \<Longrightarrow>
     returns (pbg_evaluate_r k ab e idx)"
proof (induction k arbitrary: idx)
  case 0
  then show ?case by simp
next
  case (Suc k)
  show ?case
  proof (cases "get_expr_node e idx")
    case (Inl err)
    then show ?thesis
      by (simp add: pbg_evaluate_r.simps wbind_def returns_def)
  next
    case (Inr nd)
    show ?thesis
    proof (cases "is_lt (node_type nd)")
      case True
      then show ?thesis
        using Inr by (simp add: evaluate_r_literal returns_def)
    next
      case False
      then have st: "0 \<le> idx" "slot (e_static e) idx = Inr nd"
        using Inr assms by (auto simp add: get_expr_node_def forward_refs_def split: if_splits)
      then have rg: "idx < int (length (e_static e))"
        by (auto simp add: slot_def split: if_splits)
      show ?thesis
      proof (cases "child_ref (node_data nd) 0")
        case (Inl err)
        then show ?thesis
          using Inr False by (simp add: pbg_evaluate_r.simps wbind_def wlift_def returns_def)
      next
        case c0: (Inr c0)
        then obtain cs where cs: "node_data nd = DInts cs"
          using child_ref_ints_only by blast
        have ch: "returns (pbg_evaluate_r k ab e c)" if "c \<in> set cs" for c
        proof -
          from that assms st cs have "c < 0 \<or> idx < c"
            by (auto simp add: forward_refs_def)
          then show ?thesis
            using Suc.prems rg st(1) by (intro Suc.IH) auto
        qed
        have m0: "c0 \<in> set cs"
          using c0 cs child_ref_member by simp
        have "returns (case node_type nd of
             PBG_OP_NOT \<Rightarrow> wbind (pbg_evaluate_r k ab e c0) (\<lambda>b. wret (\<not> b))
           | PBG_OP_AND \<Rightarrow> and_loop (pbg_evaluate_r k ab e) (node_data nd) (node_int nd) 0
           | PBG_OP_OR \<Rightarrow> or_loop (pbg_evaluate_r k ab e) (node_data nd) (node_int nd) 0
           | PBG_OP_EQ \<Rightarrow> wlift (eq_loop ab e (node_data nd) (node_int nd) c0 1)
           | PBG_OP_LT \<Rightarrow> wlift (cmp_children ab e (node_data nd) c0 (dbl_less ab))
           | PBG_OP_GT \<Rightarrow> wlift (cmp_children ab e (node_data nd) c0 (\<lambda>x y. dbl_less ab y x))
           | PBG_OP_EXST \<Rightarrow>
               wlift (rbind (get_expr_node e c0) (\<lambda>child0. Inr (node_type child0 \<noteq> PBG_UNKNOWN)))
           | PBG_OP_NEQ \<Rightarrow> wlift (neq_children ab e (node_data nd) c0)
           | PBG_OP_LTE \<Rightarrow> wlift (cmp_children ab e (node_data nd) c0 (dbl_le ab))
           | PBG_OP_GTE \<Rightarrow> wlift (cmp_children ab e (node_data nd) c0 (\<lambda>x y. dbl_le ab y x))
           | _ \<Rightarrow> wlift (Inl NotModelled))"
          by (cases "node_type nd")
             (simp_all add: returns_simps cs wbind_returns and_loop_returns or_loop_returns ch m0)
        then show ?thesis
          using evaluate_r_operator [OF Inr False c0, of k ab]
          by (simp add: wbind_ok returns_def)
      qed
    qed
  qed
qed

lemma evaluate_returns:
  assumes "e_dynamic e = map Some keys" and "e_dynamicsz e = int (length keys)"
    and "forward_refs (e\<lparr>e_dynamic := map (\<lambda>nd. Some (resolved dict nd)) keys\<rparr>)"
  shows "snd (pbg_evaluate (Suc (length (e_static e))) ab e dict) \<noteq> None"
proof -
  let ?e = "e\<lparr>e_dynamic := map (\<lambda>nd. Some (resolved dict nd)) keys\<rparr>"
  have "returns (pbg_evaluate_r (Suc (length (e_static e))) ab ?e 0)"
    using evaluate_r_returns [OF assms(3), of 0 "Suc (length (e_static e))" ab] by simp
  then show ?thesis
    using evaluate_after_resolution [OF assms(1,2), of "Suc (length (e_static e))" ab dict]
    by (simp add: returns_def)
qed

lemma forward_refs_and_example: "forward_refs and_example"
  by (auto simp add: forward_refs_def and_example_def expr_of_def slot_def op_node_def bool_lit_def
      nth_Cons split: if_splits nat.splits)

lemma new_static_index: "new_static e nd = Inr (e1, idx) \<Longrightarrow> idx = e_staticsz e"
  by (auto simp add: new_static_def rbind_def split: sum.splits)

lemma new_dynamic_index: "new_dynamic e nd = Inr (e1, idx) \<Longrightarrow> idx = - e_dynamicsz e - 1"
  by (auto simp add: new_dynamic_def rbind_def split: sum.splits)

lemma parse_literal_index:
  "parse_literal cx e s n = Inr (e1, idx) \<Longrightarrow> idx = e_staticsz e \<or> idx = - e_dynamicsz e - 1"
  by (auto simp add: parse_literal_def rbind_def split: sum.splits if_splits
      dest: new_static_index new_dynamic_index)

lemma parse_r_index:
  assumes "pbg_parse_r k cx e arg = Some (Inr (e1, ret))"
  shows "ret_nodeidx ret = e_staticsz e \<or> ret_nodeidx ret = - e_dynamicsz e - 1"
proof (cases k)
  case 0
  then show ?thesis using assms by (simp add: pbg_parse_r.simps)
next
  case (Suc j)
  then show ?thesis
    using assms
    by (auto simp add: pbg_parse_r.simps pbind_def split: sum.splits if_splits option.splits prod.splits
        dest: new_static_index parse_literal_index)
qed

lemma scan_empty_arenas:
  "pbg_scan junk s n = Inr (st, e) \<Longrightarrow> e_staticsz e = 0 \<and> e_dynamicsz e = 0"
  by (auto simp add: pbg_scan_def rbind_def empty_expr_def Let_def split: sum.splits prod.splits)

lemma parse_root_reference:
  "pbg_parse_top junk atof szd s n = Some (Inr (e, ret)) \<Longrightarrow>
   ret_nodeidx ret = 0 \<or> ret_nodeidx ret = - 1"
  by (auto simp add: pbg_parse_top_def pbind_def split: sum.splits prod.splits
      dest!: parse_r_index scan_empty_arenas)

end
